theory Spec2Isabelle
  imports Main
begin

section \<open>Data model\<close>

text \<open>
  The tables of \<^verbatim>\<open>app/models/file.py\<close> and \<^verbatim>\<open>app/models/user.py\<close>, one record per
  row.  Python integers are unbounded, so every integer column is an \<^typ>\<open>int\<close>; a
  nullable column is an \<^typ>\<open>'a option\<close>.  Time stamps are integers (microseconds).  The
  columns \<^verbatim>\<open>created_at\<close> and \<^verbatim>\<open>updated_at\<close> are written by the code but never read by
  it, and are left out.  Field names follow the source; \<^verbatim>\<open>id\<close> is \<open>meta_id\<close>, and the
  columns of \<^verbatim>\<open>FileStore\<close> and \<^verbatim>\<open>FileChunk\<close> that share a name with a column of
  \<^verbatim>\<open>FileMeta\<close> carry a prefix.
\<close>

type_synonym bytes = string

record file_meta =
  meta_id :: int
  user_id :: int
  parent_id :: int
  file_name :: string
  is_folder :: bool
  file_hash :: "string option"
  is_deleted :: bool
  deleted_at :: "int option"

record file_store =
  store_hash :: string
  real_path :: string
  file_size :: int
  ref_count :: int

record file_chunk =
  upload_id :: string
  chunk_user_id :: int
  chunk_file_hash :: string
  chunk_index :: int
  chunk_size :: int
  is_uploaded :: bool
  temp_path :: "string option"

record user =
  quota_total :: int
  quota_used :: int

text \<open>
  The state every operation works on: the three tables of the file module in insertion
  order (a query without \<^verbatim>\<open>ORDER BY\<close> returns rows in that order, and \<^verbatim>\<open>first()\<close> is
  the first match), the auto-increment counter of \<^verbatim>\<open>file_meta.id\<close>, the user table
  keyed by user id, and the file system as a map from paths to contents.
\<close>

record db =
  metas :: "file_meta list"
  next_id :: int
  stores :: "file_store list"
  chunks :: "file_chunk list"
  users :: "int \<rightharpoonup> user"
  disk :: "string \<rightharpoonup> bytes"

text \<open>
  The failures of the endpoints (each an \<^verbatim>\<open>HTTPException\<close> of the source) and Python's
  \<^verbatim>\<open>RecursionError\<close>, which the recursive tree walks raise when they nest too deep.
\<close>

datatype error =
    InvalidName
  | NameConflict int
  | QuotaExceeded
  | SessionNotFound
  | ChunkMissing int
  | TempMissing int
  | HashMismatch
  | NoStorage
  | NotFound
  | Unauthenticated
  | RecursionError

section \<open>Chunk sessions (app/crud/crud\_chunk.py)\<close>

definition delete_chunks :: "db \<Rightarrow> string \<Rightarrow> db" where
  "delete_chunks s upl = s\<lparr>chunks := filter (\<lambda>c. upload_id c \<noteq> upl) (chunks s)\<rparr>"

definition pending_chunk :: "string \<Rightarrow> int \<Rightarrow> string \<Rightarrow> int \<Rightarrow> file_chunk" where
  "pending_chunk upl uid fh i =
     \<lparr>upload_id = upl, chunk_user_id = uid, chunk_file_hash = fh, chunk_index = i,
      chunk_size = 0, is_uploaded = False, temp_path = None\<rparr>"

text \<open>
  \<^verbatim>\<open>create_init_chunks\<close>: the rows of the session are read; a non-empty result of the
  requested length is returned as it is; a non-empty result of another length is deleted;
  then \<^verbatim>\<open>range(total_chunks)\<close> pending rows are inserted (none when the count is not
  positive).
\<close>

definition create_init_chunks ::
  "db \<Rightarrow> string \<Rightarrow> int \<Rightarrow> string \<Rightarrow> int \<Rightarrow> db \<times> file_chunk list" where
  "create_init_chunks s upl uid fh total_chunks =
     (let existing = filter (\<lambda>c. upload_id c = upl) (chunks s) in
      if existing \<noteq> [] \<and> int (length existing) = total_chunks then (s, existing)
      else
        let s1 = (if existing \<noteq> [] then delete_chunks s upl else s);
            new = map (pending_chunk upl uid fh) [0..total_chunks - 1]
        in (s1\<lparr>chunks := chunks s1 @ new\<rparr>, new))"

definition get_all_chunks :: "db \<Rightarrow> string \<Rightarrow> file_chunk list" where
  "get_all_chunks s upl = sort_key chunk_index (filter (\<lambda>c. upload_id c = upl) (chunks s))"

definition mark_chunk_uploaded ::
  "db \<Rightarrow> string \<Rightarrow> int \<Rightarrow> int \<Rightarrow> string \<Rightarrow> db \<times> file_chunk option" where
  "mark_chunk_uploaded s upl idx sz path =
     (case find (\<lambda>c. upload_id c = upl \<and> chunk_index c = idx) (chunks s) of
        None \<Rightarrow> (s, None)
      | Some c \<Rightarrow>
          (let c' = c\<lparr>is_uploaded := True, chunk_size := sz, temp_path := Some path\<rparr> in
           (s\<lparr>chunks := map (\<lambda>d. if upload_id d = upl \<and> chunk_index d = idx then c' else d)
                          (chunks s)\<rparr>, Some c')))"

section \<open>Names\<close>

text \<open>
  Python renders the counter of a candidate name with \<^verbatim>\<open>str\<close>: decimal digits, most
  significant first.  The counter starts at 1 and only grows, so it is a natural number.
\<close>

definition digit_char :: "nat \<Rightarrow> char" where
  "digit_char d = char_of (48 + d)"

fun str_nat :: "nat \<Rightarrow> string" where
  "str_nat n = (if n < 10 then [digit_char n] else str_nat (n div 10) @ [digit_char (n mod 10)])"

declare str_nat.simps [simp del]

text \<open>The format string \<^verbatim>\<open>f"{name} ({counter}){ext}"\<close>.\<close>

definition numbered :: "string \<Rightarrow> nat \<Rightarrow> string \<Rightarrow> string" where
  "numbered stem counter ext = stem @ '' ('' @ str_nat counter @ '')'' @ ext"

lemma digit_char_inj: "a < 10 \<Longrightarrow> b < 10 \<Longrightarrow> digit_char a = digit_char b \<Longrightarrow> a = b"
proof -
  assume a: "a < 10" and b: "b < 10" and e: "digit_char a = digit_char b"
  from e have "(of_char (digit_char a) :: nat) = of_char (digit_char b)" by simp
  then have "(48 + a) mod 256 = (48 + b) mod 256"
    by (simp add: digit_char_def)
  with a b show "a = b" by simp
qed

lemma str_nat_nonempty: "str_nat n \<noteq> []"
  by (subst str_nat.simps) simp

lemma str_nat_inj: "str_nat n = str_nat m \<Longrightarrow> n = m"
proof (induction n arbitrary: m rule: str_nat.induct)
  case (1 n)
  show ?case
  proof (cases "n < 10")
    case True
    then have sn: "str_nat n = [digit_char n]" by (subst str_nat.simps) simp
    show ?thesis
    proof (cases "m < 10")
      case mt: True
      then have "str_nat m = [digit_char m]" by (subst str_nat.simps) simp
      with sn "1.prems" True mt show ?thesis by (auto dest: digit_char_inj)
    next
      case mf: False
      then have "str_nat m = str_nat (m div 10) @ [digit_char (m mod 10)]"
        by (subst str_nat.simps) simp
      with sn "1.prems" str_nat_nonempty[of "m div 10"] show ?thesis by simp
    qed
  next
    case False
    then have sn: "str_nat n = str_nat (n div 10) @ [digit_char (n mod 10)]"
      by (subst str_nat.simps) simp
    show ?thesis
    proof (cases "m < 10")
      case mt: True
      then have "str_nat m = [digit_char m]" by (subst str_nat.simps) simp
      with sn "1.prems" str_nat_nonempty[of "n div 10"] show ?thesis by simp
    next
      case mf: False
      then have sm: "str_nat m = str_nat (m div 10) @ [digit_char (m mod 10)]"
        by (subst str_nat.simps) simp
      from sn sm "1.prems" have e1: "str_nat (n div 10) = str_nat (m div 10)"
        and e2: "digit_char (n mod 10) = digit_char (m mod 10)" by simp_all
      from "1.IH"[OF False e1] have d: "n div 10 = m div 10" .
      from e2 have r: "n mod 10 = m mod 10" by (auto dest!: digit_char_inj[rotated 2])
      from d r show ?thesis by (metis div_mult_mod_eq)
    qed
  qed
qed

lemma numbered_inj: "numbered stem a ext = numbered stem b ext \<Longrightarrow> a = b"
proof -
  assume "numbered stem a ext = numbered stem b ext"
  then have "str_nat a = str_nat b"
    by (simp add: numbered_def)
  then show ?thesis by (rule str_nat_inj)
qed

lemma finite_numbered_in:
  "finite {k. c \<le> k \<and> numbered stem k ext \<in> A}" if "finite A"
proof -
  have "inj (\<lambda>k. numbered stem k ext)"
    by (rule injI) (rule numbered_inj)
  then have "finite ((\<lambda>k. numbered stem k ext) -` A)"
    using that by (rule finite_vimageI[rotated])
  then show ?thesis by (rule rev_finite_subset) auto
qed

lemma numbered_in_decreases:
  assumes "finite A" and "numbered stem c ext \<in> A"
  shows "card {k. Suc c \<le> k \<and> numbered stem k ext \<in> A}
       < card {k. c \<le> k \<and> numbered stem k ext \<in> A}"
proof -
  let ?A = "\<lambda>c. {k. c \<le> k \<and> numbered stem k ext \<in> A}"
  have "c \<in> ?A c" "c \<notin> ?A (Suc c)" "?A (Suc c) \<subseteq> ?A c"
    using assms(2) by auto
  then have "?A (Suc c) \<subset> ?A c" by blast
  then show ?thesis
    using finite_numbered_in[OF assms(1)] by (rule psubset_card_mono[rotated])
qed

text \<open>
  The \<^verbatim>\<open>LIKE\<close> operator of SQL, as the standard defines it without an escape character
  and compared character by character: \<^verbatim>\<open>%\<close> stands for any sequence of characters and
  \<^verbatim>\<open>_\<close> for any one character.  The first argument is the pattern.
\<close>

fun like :: "string \<Rightarrow> string \<Rightarrow> bool" where
  "like [] s = (s = [])"
| "like (p # ps) s =
     (if p = CHR ''%'' then
        like ps s \<or> (case s of [] \<Rightarrow> False | c # cs \<Rightarrow> like (p # ps) cs)
      else (case s of [] \<Rightarrow> False | c # cs \<Rightarrow> (p = CHR ''_'' \<or> p = c) \<and> like ps cs))"

text \<open>\<^verbatim>\<open>s.rsplit(".", 1)\<close> for a string that holds a dot: the parts around the last dot.\<close>

definition rsplit_dot :: "string \<Rightarrow> string \<times> string" where
  "rsplit_dot name =
     (rev (tl (dropWhile (\<lambda>c. c \<noteq> CHR ''.'') (rev name))),
      rev (takeWhile (\<lambda>c. c \<noteq> CHR ''.'') (rev name)))"

text \<open>
  The first lines of \<^verbatim>\<open>_get_unique_filename\<close>: the name without its extension, and the
  extension with its dot (empty when the name has no dot or starts with one).
\<close>

definition split_name :: "string \<Rightarrow> string \<times> string" where
  "split_name base_name =
     (if CHR ''.'' \<in> set base_name \<and> \<not> (base_name \<noteq> [] \<and> hd base_name = CHR ''.'')
      then (case rsplit_dot base_name of
              (name_without_ext, ext) \<Rightarrow> (name_without_ext, CHR ''.'' # ext))
      else (base_name, []))"

text \<open>
  \<^verbatim>\<open>os.path.splitext\<close> of the Python library (POSIX flavour): the extension starts at the
  last dot of the last path component, unless only dots come before it there.
\<close>

definition splitext :: "string \<Rightarrow> string \<times> string" where
  "splitext p =
     (let base = rev (takeWhile (\<lambda>c. c \<noteq> CHR ''/'') (rev p));
          dir = take (length p - length base) p
      in if CHR ''.'' \<in> set base then
           (case rsplit_dot base of
              (stem, e) \<Rightarrow>
                if list_ex (\<lambda>c. c \<noteq> CHR ''.'') stem then (dir @ stem, CHR ''.'' # e)
                else (p, []))
         else (p, []))"

text \<open>
  \<^verbatim>\<open>is_filename_valid\<close>: the regular expression finds none of the nine characters
  less-than, greater-than, colon, double quote, slash, backslash, bar, question mark and
  star in the name.
\<close>

definition illegal_chars :: "char list" where
  "illegal_chars =
     [CHR ''<'', CHR ''>'', CHR '':'', CHR 0x22, CHR ''/'', CHR 0x5C, CHR ''|'', CHR ''?'',
      CHR ''*'']"

definition is_filename_valid :: "string \<Rightarrow> bool" where
  "is_filename_valid filename = (\<not> list_ex (\<lambda>c. c \<in> set illegal_chars) filename)"

text \<open>\<^verbatim>\<open>relative_path.split("/")\<close>.\<close>

fun split_slash :: "string \<Rightarrow> string list" where
  "split_slash [] = [[]]"
| "split_slash (c # cs) =
     (if c = CHR ''/'' then [] # split_slash cs
      else (case split_slash cs of [] \<Rightarrow> [[c]] | w # ws \<Rightarrow> (c # w) # ws))"


section \<open>Blob records (app/crud/crud\_file.py)\<close>

definition get_by_hash :: "db \<Rightarrow> string \<Rightarrow> file_store option" where
  "get_by_hash s h = find (\<lambda>r. store_hash r = h) (stores s)"

definition increment_ref_count :: "db \<Rightarrow> string \<Rightarrow> db \<times> file_store option" where
  "increment_ref_count s h =
     (let s' = s\<lparr>stores := map (\<lambda>r. if store_hash r = h then r\<lparr>ref_count := ref_count r + 1\<rparr>
                                   else r) (stores s)\<rparr>
      in (s', get_by_hash s' h))"

definition decrement_ref_count :: "db \<Rightarrow> string \<Rightarrow> db \<times> file_store option" where
  "decrement_ref_count s h =
     (let s' = s\<lparr>stores := map (\<lambda>r. if store_hash r = h then r\<lparr>ref_count := ref_count r - 1\<rparr>
                                   else r) (stores s)\<rparr>
      in (s', get_by_hash s' h))"

text \<open>
  \<^verbatim>\<open>create_file_store\<close>.  The hash is the primary key of the table: an insert of a hash
  that is present raises \<^verbatim>\<open>IntegrityError\<close>, which the code answers with a rollback and
  an increment.
\<close>

definition create_file_store :: "db \<Rightarrow> string \<Rightarrow> string \<Rightarrow> int \<Rightarrow> db \<times> file_store option" where
  "create_file_store s h path fsize =
     (case get_by_hash s h of
        Some existing \<Rightarrow> increment_ref_count s h
      | None \<Rightarrow>
          if list_ex (\<lambda>r. store_hash r = h) (stores s) then increment_ref_count s h
          else
            (let db_obj = \<lparr>store_hash = h, real_path = path, file_size = fsize, ref_count = 1\<rparr>
             in (s\<lparr>stores := stores s @ [db_obj]\<rparr>, Some db_obj)))"

section \<open>Namespace (app/crud/crud\_file.py)\<close>

text \<open>The query \<^verbatim>\<open>filter(id == id, user_id == user_id).first()\<close> that opens most operations.\<close>

definition find_meta :: "db \<Rightarrow> int \<Rightarrow> int \<Rightarrow> file_meta option" where
  "find_meta s i u = find (\<lambda>n. meta_id n = i \<and> user_id n = u) (metas s)"

definition get_by_name_and_parent :: "db \<Rightarrow> string \<Rightarrow> int \<Rightarrow> int \<Rightarrow> file_meta option" where
  "get_by_name_and_parent s name p u =
     find (\<lambda>n. user_id n = u \<and> parent_id n = p \<and> file_name n = name \<and> \<not> is_deleted n) (metas s)"

text \<open>
  The loop \<^verbatim>\<open>while True\<close> of \<^verbatim>\<open>_get_unique_filename\<close>: the first candidate, counting from
  \<open>counter\<close>, that is not among the existing names.  It ends because the candidates are
  pairwise different and the existing names are finitely many.
\<close>

function probe :: "string list \<Rightarrow> string \<Rightarrow> string \<Rightarrow> nat \<Rightarrow> string" where
  "probe existing_names name_without_ext ext counter =
     (if numbered name_without_ext counter ext \<notin> set existing_names
      then numbered name_without_ext counter ext
      else probe existing_names name_without_ext ext (counter + 1))"
  by pat_completeness auto
termination
  by (relation "measure (\<lambda>(ex, stem, ext, c). card {k. c \<le> k \<and> numbered stem k ext \<in> set ex})")
     (simp_all add: numbered_in_decreases)

declare probe.simps [simp del]

definition get_unique_filename_crud :: "db \<Rightarrow> int \<Rightarrow> int \<Rightarrow> string \<Rightarrow> string" where
  "get_unique_filename_crud s u p fname =
     (case split_name fname of
        (name_without_ext, ext) \<Rightarrow>
          (let existing_names =
                 map file_name
                   (filter (\<lambda>n. user_id n = u \<and> parent_id n = p
                               \<and> like (name_without_ext @ ''%'' @ ext) (file_name n)
                               \<and> \<not> is_deleted n) (metas s))
           in if fname \<notin> set existing_names then fname
              else probe existing_names name_without_ext ext 1))"

text \<open>
  A row of \<^verbatim>\<open>file_meta\<close> as the code inserts it: the identifier comes from the counter,
  the deletion fields take their defaults.
\<close>

definition insert_meta ::
  "db \<Rightarrow> int \<Rightarrow> int \<Rightarrow> string \<Rightarrow> bool \<Rightarrow> string option \<Rightarrow> db \<times> file_meta" where
  "insert_meta s u p name folder h =
     (let db_obj = \<lparr>meta_id = next_id s, user_id = u, parent_id = p, file_name = name,
                    is_folder = folder, file_hash = h, is_deleted = False, deleted_at = None\<rparr>
      in (s\<lparr>metas := metas s @ [db_obj], next_id := next_id s + 1\<rparr>, db_obj))"

definition create_with_user ::
  "db \<Rightarrow> string \<Rightarrow> bool \<Rightarrow> int \<Rightarrow> string option \<Rightarrow> int \<Rightarrow> db \<times> file_meta" where
  "create_with_user s fname folder p h u =
     insert_meta s u p (get_unique_filename_crud s u p fname) folder h"

text \<open>
  A \<^verbatim>\<open>for\<close> loop whose body can raise: the loop stops at the first exception, with the
  state reached so far (every call of the body has committed its own changes).
\<close>

fun for_each :: "('a \<Rightarrow> 's \<Rightarrow> 's \<times> (error + 'b)) \<Rightarrow> 'a list \<Rightarrow> 's \<Rightarrow> 's \<times> (error + unit)" where
  "for_each f [] s = (s, Inr ())"
| "for_each f (x # xs) s =
     (case f x s of
        (s', Inl e) \<Rightarrow> (s', Inl e)
      | (s', Inr r) \<Rightarrow> for_each f xs s')"

text \<open>
  \<^verbatim>\<open>remove\<close>, the soft delete.  The first argument of this and of the other recursive walks
  is the call depth that is left before Python raises \<^verbatim>\<open>RecursionError\<close>; \<open>now\<close> is
  the clock.
\<close>

fun remove_meta :: "nat \<Rightarrow> int \<Rightarrow> db \<Rightarrow> int \<Rightarrow> int \<Rightarrow> db \<times> (error + file_meta option)" where
  "remove_meta 0 now s i u = (s, Inl RecursionError)"
| "remove_meta (Suc depth) now s i u =
     (case find_meta s i u of
        None \<Rightarrow> (s, Inr None)
      | Some obj \<Rightarrow>
          (case (if is_folder obj
                 then for_each (\<lambda>child st. remove_meta depth now st (meta_id child) u)
                        (filter (\<lambda>c. parent_id c = i \<and> user_id c = u) (metas s)) s
                 else (s, Inr ())) of
             (s1, Inl e) \<Rightarrow> (s1, Inl e)
           | (s1, Inr r) \<Rightarrow>
               (let s2 = s1\<lparr>metas := map (\<lambda>n. if meta_id n = i
                                               then n\<lparr>is_deleted := True, deleted_at := Some now\<rparr>
                                               else n) (metas s1)\<rparr>
                in (s2, Inr (find (\<lambda>n. meta_id n = i) (metas s2))))))"

text \<open>
  \<^verbatim>\<open>restore\<close>.  The session is created with \<^verbatim>\<open>autoflush=False\<close> and \<^verbatim>\<open>restore\<close> commits
  once, at its end: until then every query reads the rows as they were when \<^verbatim>\<open>restore\<close>
  started (the state \<open>s\<close>), while the changed attributes live in the loaded objects (the
  list \<open>mem\<close>, the table as it will be written).  An exception leaves the table unwritten.
\<close>

definition undelete :: "int \<Rightarrow> file_meta list \<Rightarrow> file_meta list" where
  "undelete i mem =
     map (\<lambda>n. if meta_id n = i then n\<lparr>is_deleted := False, deleted_at := None\<rparr> else n) mem"

fun for_each_pure :: "('a \<Rightarrow> 'm \<Rightarrow> error + 'm) \<Rightarrow> 'a list \<Rightarrow> 'm \<Rightarrow> error + 'm" where
  "for_each_pure f [] m = Inr m"
| "for_each_pure f (x # xs) m =
     (case f x m of Inl e \<Rightarrow> Inl e | Inr m' \<Rightarrow> for_each_pure f xs m')"

fun restore_downwards ::
  "nat \<Rightarrow> db \<Rightarrow> int \<Rightarrow> file_meta \<Rightarrow> file_meta list \<Rightarrow> error + file_meta list" where
  "restore_downwards 0 s u obj mem = Inl RecursionError"
| "restore_downwards (Suc depth) s u obj mem =
     (if \<not> is_folder obj then Inr mem
      else for_each_pure
             (\<lambda>child m. restore_downwards depth s u child (undelete (meta_id child) m))
             (filter (\<lambda>c. parent_id c = meta_id obj \<and> user_id c = u \<and> is_deleted c) (metas s))
             mem)"

text \<open>
  \<^verbatim>\<open>_restore_upwards\<close> is a \<^verbatim>\<open>while\<close> loop along the parent pointers; on a cycle it never
  ends, which is the value \<open>None\<close>.  \<^verbatim>\<open>parent.is_deleted\<close> reads the loaded object.
\<close>

partial_function (option) restore_upwards ::
  "db \<Rightarrow> int \<Rightarrow> file_meta \<Rightarrow> file_meta list \<Rightarrow> file_meta list option" where
  "restore_upwards s u current mem =
     (if parent_id current = 0 then Some mem
      else (case find_meta s (parent_id current) u of
              None \<Rightarrow> Some mem
            | Some parent \<Rightarrow>
                restore_upwards s u parent
                  (map (\<lambda>n. if meta_id n = meta_id parent \<and> is_deleted n
                            then n\<lparr>is_deleted := False, deleted_at := None\<rparr> else n) mem)))"

declare restore_upwards.simps [code]

definition restore :: "nat \<Rightarrow> db \<Rightarrow> int \<Rightarrow> int \<Rightarrow> (db \<times> (error + file_meta option)) option" where
  "restore depth s i u =
     (case find_meta s i u of
        None \<Rightarrow> Some (s, Inr None)
      | Some obj \<Rightarrow>
          (case restore_downwards depth s u obj (undelete i (metas s)) of
             Inl e \<Rightarrow> Some (s, Inl e)
           | Inr mem1 \<Rightarrow>
               (case restore_upwards s u obj mem1 of
                  None \<Rightarrow> None
                | Some mem2 \<Rightarrow>
                    Some (s\<lparr>metas := mem2\<rparr>, Inr (find (\<lambda>n. meta_id n = i) mem2)))))"

text \<open>
  \<^verbatim>\<open>permanent_remove\<close>.  The branch of a file row: when the row has a blob record
  (\<^verbatim>\<open>obj.file_store\<close>), the count of the record is decremented; a count that is then not
  positive removes the physical file, if it is there, and the record.
\<close>

definition release_blob :: "db \<Rightarrow> file_meta \<Rightarrow> db" where
  "release_blob s obj =
     (case file_hash obj of
        None \<Rightarrow> s
      | Some h \<Rightarrow>
          (case get_by_hash s h of
             None \<Rightarrow> s
           | Some file_store \<Rightarrow>
               (case decrement_ref_count s h of
                  (s1, None) \<Rightarrow> s1
                | (s1, Some updated_store) \<Rightarrow>
                    if ref_count updated_store \<le> 0
                    then s1\<lparr>disk := (disk s1)(real_path updated_store := None),
                            stores := filter (\<lambda>r. store_hash r \<noteq> h) (stores s1)\<rparr>
                    else s1)))"

fun permanent_remove :: "nat \<Rightarrow> db \<Rightarrow> int \<Rightarrow> int \<Rightarrow> db \<times> (error + file_meta option)" where
  "permanent_remove 0 s i u = (s, Inl RecursionError)"
| "permanent_remove (Suc depth) s i u =
     (case find_meta s i u of
        None \<Rightarrow> (s, Inr None)
      | Some obj \<Rightarrow>
          (case (if is_folder obj
                 then for_each (\<lambda>child st. permanent_remove depth st (meta_id child) u)
                        (filter (\<lambda>c. parent_id c = i \<and> user_id c = u) (metas s)) s
                 else (release_blob s obj, Inr ())) of
             (s1, Inl e) \<Rightarrow> (s1, Inl e)
           | (s1, Inr r) \<Rightarrow>
               (s1\<lparr>metas := filter (\<lambda>n. meta_id n \<noteq> i) (metas s1)\<rparr>, Inr (Some obj))))"

text \<open>
  \<^verbatim>\<open>get_ancestors\<close>: a \<^verbatim>\<open>while\<close> loop along the parent pointers that puts every row it
  finds in front of the list; \<open>None\<close> when it never ends.
\<close>

partial_function (option) ancestors_loop ::
  "db \<Rightarrow> int \<Rightarrow> int \<Rightarrow> file_meta list \<Rightarrow> file_meta list option" where
  "ancestors_loop s u current_id ancestors =
     (if current_id = 0 then Some ancestors
      else (case find_meta s current_id u of
              None \<Rightarrow> Some ancestors
            | Some folder \<Rightarrow> ancestors_loop s u (parent_id folder) (folder # ancestors)))"

declare ancestors_loop.simps [code]

definition get_ancestors :: "db \<Rightarrow> int \<Rightarrow> int \<Rightarrow> file_meta list option" where
  "get_ancestors s folder_id u = ancestors_loop s u folder_id []"

text \<open>
  \<^verbatim>\<open>get_or_create_path\<close>: the loop over the folder names of the path, and the function
  itself, which drops the last component (the file name).
\<close>

fun resolve_folders :: "db \<Rightarrow> int \<Rightarrow> int \<Rightarrow> string list \<Rightarrow> db \<times> int" where
  "resolve_folders s u current_parent_id [] = (s, current_parent_id)"
| "resolve_folders s u current_parent_id (folder_name # rest) =
     (if folder_name = [] then resolve_folders s u current_parent_id rest
      else
        (case find (\<lambda>n. user_id n = u \<and> parent_id n = current_parent_id
                       \<and> file_name n = folder_name \<and> is_folder n \<and> \<not> is_deleted n) (metas s) of
           Some folder \<Rightarrow> resolve_folders s u (meta_id folder) rest
         | None \<Rightarrow>
             (case insert_meta s u current_parent_id folder_name True None of
                (s1, new_folder) \<Rightarrow>
                  (let existing_folders =
                         sort_key meta_id
                           (filter (\<lambda>n. user_id n = u \<and> parent_id n = current_parent_id
                                       \<and> file_name n = folder_name \<and> is_folder n
                                       \<and> \<not> is_deleted n) (metas s1))
                   in if length existing_folders > 1 then
                        (let primary_folder = hd existing_folders;
                             empty_dups =
                               filter (\<lambda>dup. \<not> list_ex (\<lambda>n. parent_id n = meta_id dup) (metas s1))
                                 (tl existing_folders);
                             s2 = s1\<lparr>metas := filter (\<lambda>n. meta_id n \<notin> set (map meta_id empty_dups))
                                                 (metas s1)\<rparr>
                         in resolve_folders s2 u (meta_id primary_folder) rest)
                      else resolve_folders s1 u (meta_id new_folder) rest))))"

definition get_or_create_path :: "db \<Rightarrow> int \<Rightarrow> int \<Rightarrow> string \<Rightarrow> db \<times> int" where
  "get_or_create_path s u p relative_path =
     resolve_folders s u p (butlast (split_slash relative_path))"

text \<open>
  \<^verbatim>\<open>copy\<close>.  Besides the state, the walk keeps a log of the pairs (row copied, row made
  for it) in the order of the calls.  The log is bookkeeping of the model, so that theorems
  can speak of the counterpart of a row; the source has no such value, and \<open>copy\<close> below
  drops it.
\<close>

type_synonym copy_log = "(file_meta \<times> file_meta) list"

fun copy_walk ::
  "nat \<Rightarrow> db \<times> copy_log \<Rightarrow> int \<Rightarrow> int \<Rightarrow> int \<Rightarrow> (db \<times> copy_log) \<times> (error + file_meta option)" where
  "copy_walk 0 st i target_parent_id u = (st, Inl RecursionError)"
| "copy_walk (Suc depth) st i target_parent_id u =
     (case find_meta (fst st) i u of
        None \<Rightarrow> (st, Inr None)
      | Some obj \<Rightarrow>
          (case insert_meta (fst st) u target_parent_id
                  (get_unique_filename_crud (fst st) u target_parent_id (file_name obj))
                  (is_folder obj) (file_hash obj) of
             (s1, new_obj) \<Rightarrow>
               (let log1 = snd st @ [(obj, new_obj)] in
                if \<not> is_folder obj then
                  (case file_hash obj of
                     None \<Rightarrow> ((s1, log1), Inr (Some new_obj))
                   | Some h \<Rightarrow>
                       if h = [] then ((s1, log1), Inr (Some new_obj))
                       else ((fst (increment_ref_count s1 h), log1), Inr (Some new_obj)))
                else
                  (case for_each
                          (\<lambda>child st'. copy_walk depth st' (meta_id child) (meta_id new_obj) u)
                          (filter (\<lambda>c. parent_id c = i \<and> user_id c = u \<and> \<not> is_deleted c)
                             (metas s1))
                          (s1, log1) of
                     (st2, Inl e) \<Rightarrow> (st2, Inl e)
                   | (st2, Inr r) \<Rightarrow> (st2, Inr (Some new_obj))))))"

definition copy :: "nat \<Rightarrow> db \<Rightarrow> int \<Rightarrow> int \<Rightarrow> int \<Rightarrow> db \<times> (error + file_meta option)" where
  "copy depth s i target_parent_id u =
     (case copy_walk depth (s, []) i target_parent_id u of (st, r) \<Rightarrow> (fst st, r))"

text \<open>
  \<^verbatim>\<open>move\<close>.  The outer \<open>None\<close> is a walk over the ancestors that never ends; the inner
  \<open>None\<close> is the \<^verbatim>\<open>return None\<close> of the source (row not found, or cyclic move).
\<close>

definition move :: "db \<Rightarrow> int \<Rightarrow> int \<Rightarrow> int \<Rightarrow> (db \<times> file_meta option) option" where
  "move s i target_parent_id u =
     (case find_meta s i u of
        None \<Rightarrow> Some (s, None)
      | Some obj \<Rightarrow>
          (case (if is_folder obj then get_ancestors s target_parent_id u else Some []) of
             None \<Rightarrow> None
           | Some ancestors \<Rightarrow>
               if list_ex (\<lambda>ancestor. meta_id ancestor = i) ancestors then Some (s, None)
               else
                 (let unique_name = get_unique_filename_crud s u target_parent_id (file_name obj);
                      obj' = obj\<lparr>parent_id := target_parent_id, file_name := unique_name\<rparr>
                  in Some (s\<lparr>metas := map (\<lambda>n. if meta_id n = i then obj' else n) (metas s)\<rparr>,
                           Some obj'))))"

text \<open>
  The trash: \<^verbatim>\<open>clean_expired_trash\<close> with the default of 30 days, and \<^verbatim>\<open>get_trash_files\<close>,
  which runs it first.  A row whose \<^verbatim>\<open>deleted_at\<close> is null is not selected.
\<close>

definition days :: "int \<Rightarrow> int" where
  "days n = n * 86400000000"

definition clean_expired_trash :: "nat \<Rightarrow> int \<Rightarrow> db \<Rightarrow> int \<Rightarrow> db \<times> (error + unit)" where
  "clean_expired_trash depth now s u =
     for_each (\<lambda>file st. permanent_remove depth st (meta_id file) u)
       (filter (\<lambda>n. user_id n = u \<and> is_deleted n
                   \<and> (case deleted_at n of None \<Rightarrow> False | Some t \<Rightarrow> t < now - days 30))
          (metas s)) s"

definition get_trash_files ::
  "nat \<Rightarrow> int \<Rightarrow> db \<Rightarrow> int \<Rightarrow> int option \<Rightarrow> nat \<Rightarrow> nat \<Rightarrow> db \<times> (error + file_meta list)" where
  "get_trash_files depth now s u parent skip limit =
     (case clean_expired_trash depth now s u of
        (s1, Inl e) \<Rightarrow> (s1, Inl e)
      | (s1, Inr r) \<Rightarrow>
          (if parent \<noteq> None \<and> parent \<noteq> Some 0 then
             (s1, Inr (take limit (drop skip
                (filter (\<lambda>n. user_id n = u \<and> Some (parent_id n) = parent \<and> is_deleted n)
                   (metas s1)))))
           else
             (s1, Inr (take limit (drop skip
                (filter (\<lambda>n. user_id n = u \<and> is_deleted n
                            \<and> (parent_id n = 0
                               \<or> (case find (\<lambda>p. meta_id p = parent_id n) (metas s1) of
                                     None \<Rightarrow> True
                                   | Some parent_meta \<Rightarrow> \<not> is_deleted parent_meta)))
                   (metas s1)))))))"

section \<open>Endpoints (app/api/api\_v1/endpoints/files.py)\<close>

text \<open>
  Modelled from the spec: the collaborators that are not among the sources.  The
  authenticated user of \<^verbatim>\<open>deps.get_current_user\<close> is the row of the user table for the
  caller's id (the request fails when there is none); \<^verbatim>\<open>CRUDBase.get\<close> is the lookup of a
  row by its identifier alone.  \<^verbatim>\<open>update_quota_used\<close> is in \<^verbatim>\<open>app/crud/crud_user.py\<close>.
\<close>

definition crud_get :: "db \<Rightarrow> int \<Rightarrow> file_meta option" where
  "crud_get s i = find (\<lambda>n. meta_id n = i) (metas s)"

definition update_quota_used :: "db \<Rightarrow> int \<Rightarrow> int \<Rightarrow> db" where
  "update_quota_used s cu size_delta =
     (case users s cu of
        None \<Rightarrow> s
      | Some usr \<Rightarrow> s\<lparr>users := (users s)(cu \<mapsto> usr\<lparr>quota_used := quota_used usr + size_delta\<rparr>)\<rparr>)"

text \<open>The property \<^verbatim>\<open>FileMeta.file_size\<close>.\<close>

definition node_file_size :: "db \<Rightarrow> file_meta \<Rightarrow> int" where
  "node_file_size s m =
     (if is_folder m then 0
      else (case file_hash m of
              None \<Rightarrow> 0
            | Some h \<Rightarrow> (case get_by_hash s h of None \<Rightarrow> 0 | Some st \<Rightarrow> file_size st)))"

text \<open>\<^verbatim>\<open>os.path.join\<close> of two components (POSIX flavour).\<close>

definition path_join :: "string \<Rightarrow> string \<Rightarrow> string" where
  "path_join a b =
     (if b \<noteq> [] \<and> hd b = CHR ''/'' then b
      else if a = [] \<or> last a = CHR ''/'' then a @ b
      else a @ ''/'' @ b)"

lemma get_by_name_and_parent_in_metas:
  "get_by_name_and_parent s name p u \<noteq> None \<Longrightarrow> name \<in> set (map file_name (metas s))"
  by (auto simp: get_by_name_and_parent_def find_None_iff)

text \<open>
  \<^verbatim>\<open>get_unique_filename\<close> of the endpoints: it asks the table for every candidate.  The
  loop ends for the same reason as the one of \<^verbatim>\<open>_get_unique_filename\<close>.
\<close>

function probe_table :: "db \<Rightarrow> int \<Rightarrow> int \<Rightarrow> string \<Rightarrow> string \<Rightarrow> nat \<Rightarrow> string" where
  "probe_table s u p name ext counter =
     (if get_by_name_and_parent s (numbered name counter ext) p u = None
      then numbered name counter ext
      else probe_table s u p name ext (counter + 1))"
  by pat_completeness auto
termination
  by (relation "measure (\<lambda>(s, u, p, name, ext, c).
        card {k. c \<le> k \<and> numbered name k ext \<in> set (map file_name (metas s))})")
     (simp_all only: wf_measure in_measure prod.case Suc_eq_plus1[symmetric]
        numbered_in_decreases[OF finite_set get_by_name_and_parent_in_metas])

declare probe_table.simps [simp del]

definition get_unique_filename :: "db \<Rightarrow> string \<Rightarrow> int \<Rightarrow> int \<Rightarrow> string" where
  "get_unique_filename s filename p u =
     (if get_by_name_and_parent s filename p u = None then filename
      else (case splitext filename of (name, ext) \<Rightarrow> probe_table s u p name ext 1))"

text \<open>
  The three upload endpoints open with the same lines: the target folder (the given
  parent, or the folder that \<^verbatim>\<open>get_or_create_path\<close> resolves when a relative path is
  given), and the final name (the first free name under \<^verbatim>\<open>auto_rename\<close>, else a conflict
  with an active sibling of that name is an error).
\<close>

definition target_parent :: "db \<Rightarrow> int \<Rightarrow> int \<Rightarrow> string option \<Rightarrow> db \<times> int" where
  "target_parent s cu p relative_path =
     (case relative_path of
        None \<Rightarrow> (s, p)
      | Some rp \<Rightarrow> if rp = [] then (s, p) else get_or_create_path s cu p rp)"

definition final_name :: "db \<Rightarrow> int \<Rightarrow> string \<Rightarrow> int \<Rightarrow> bool \<Rightarrow> error + string" where
  "final_name s cu filename target_parent_id auto_rename =
     (if auto_rename then Inr (get_unique_filename s filename target_parent_id cu)
      else (case get_by_name_and_parent s filename target_parent_id cu of
              Some existing \<Rightarrow> Inl (NameConflict (meta_id existing))
            | None \<Rightarrow> Inr filename))"

text \<open>The last lines of the three endpoints: the row of the file, then the quota.\<close>

definition commit_node ::
  "db \<Rightarrow> int \<Rightarrow> string \<Rightarrow> int \<Rightarrow> string \<Rightarrow> int \<Rightarrow> db \<times> file_meta" where
  "commit_node s cu final_filename target_parent_id h fsize =
     (case create_with_user s final_filename False target_parent_id (Some h) cu of
        (s1, file_meta) \<Rightarrow> (update_quota_used s1 cu fsize, file_meta))"

definition create_folder :: "db \<Rightarrow> int \<Rightarrow> string \<Rightarrow> int \<Rightarrow> db \<times> (error + file_meta)" where
  "create_folder s cu fname p =
     (if \<not> is_filename_valid fname then (s, Inl InvalidName)
      else (case get_by_name_and_parent s fname p cu of
              Some existing \<Rightarrow> (s, Inl (NameConflict (meta_id existing)))
            | None \<Rightarrow>
                (case create_with_user s fname True p None cu of
                   (s1, folder) \<Rightarrow> (s1, Inr folder))))"

text \<open>
  \<^verbatim>\<open>upload_file\<close>.  \<open>digest\<close> is \<^verbatim>\<open>hashlib.md5\<close> of the library (the hex digest of a content), \<open>tmp\<close> the path of the temporary
  file (its name holds a random UUID), \<open>storage\<close> the result of \<^verbatim>\<open>get_best_storage_path\<close>
  (\<open>None\<close> when it raises for want of a usable volume).
\<close>

definition upload_file ::
  "(bytes \<Rightarrow> string) \<Rightarrow> db \<Rightarrow> int \<Rightarrow> string \<Rightarrow> bytes \<Rightarrow> int \<Rightarrow> string option \<Rightarrow> bool
     \<Rightarrow> string \<Rightarrow> string option \<Rightarrow> db \<times> (error + file_meta)" where
  "upload_file digest s cu filename content p relative_path auto_rename tmp storage =
     (case users s cu of
        None \<Rightarrow> (s, Inl Unauthenticated)
      | Some current_user \<Rightarrow>
     if \<not> is_filename_valid filename then (s, Inl InvalidName)
     else
     (case target_parent s cu p relative_path of
        (s1, target_parent_id) \<Rightarrow>
     (case final_name s1 cu filename target_parent_id auto_rename of
        Inl e \<Rightarrow> (s1, Inl e)
      | Inr final_filename \<Rightarrow>
     (let s2 = s1\<lparr>disk := (disk s1)(tmp \<mapsto> content)\<rparr>;
          h = digest content;
          fsize = int (length content)
      in
     if quota_used current_user + fsize > quota_total current_user
     then (s2\<lparr>disk := (disk s2)(tmp := None)\<rparr>, Inl QuotaExceeded)
     else
     (case get_by_hash s2 h of
        Some existing_store \<Rightarrow>
          (let s3 = fst (increment_ref_count s2 h);
               s4 = s3\<lparr>disk := (disk s3)(tmp := None)\<rparr>
           in (case commit_node s4 cu final_filename target_parent_id h fsize of
                 (s5, file_meta) \<Rightarrow> (s5, Inr file_meta)))
      | None \<Rightarrow>
          (case storage of
             None \<Rightarrow> (s2, Inl NoStorage)
           | Some storage_base_path \<Rightarrow>
               (let final_path = path_join storage_base_path h;
                    s3 = (if disk s2 final_path = None
                          then s2\<lparr>disk := ((disk s2)(tmp := None))(final_path \<mapsto> content)\<rparr>
                          else s2\<lparr>disk := (disk s2)(tmp := None)\<rparr>);
                    s4 = fst (create_file_store s3 h final_path fsize)
                in (case commit_node s4 cu final_filename target_parent_id h fsize of
                      (s5, file_meta) \<Rightarrow> (s5, Inr file_meta)))))))))"

text \<open>
  \<^verbatim>\<open>check_fast_upload\<close>.  The result \<open>Inr None\<close> is the answer that the content is not
  known (\<^verbatim>\<open>can_fast_upload\<close> false).
\<close>

definition check_fast_upload ::
  "db \<Rightarrow> int \<Rightarrow> string \<Rightarrow> string \<Rightarrow> int \<Rightarrow> string option \<Rightarrow> bool
     \<Rightarrow> db \<times> (error + file_meta option)" where
  "check_fast_upload s cu h fname p relative_path auto_rename =
     (case users s cu of
        None \<Rightarrow> (s, Inl Unauthenticated)
      | Some current_user \<Rightarrow>
     if \<not> is_filename_valid fname then (s, Inl InvalidName)
     else
     (case target_parent s cu p relative_path of
        (s1, target_parent_id) \<Rightarrow>
     (case final_name s1 cu fname target_parent_id auto_rename of
        Inl e \<Rightarrow> (s1, Inl e)
      | Inr final_filename \<Rightarrow>
     (case get_by_hash s1 h of
        None \<Rightarrow> (s1, Inr None)
      | Some existing_store \<Rightarrow>
          if quota_used current_user + file_size existing_store > quota_total current_user
          then (s1, Inl QuotaExceeded)
          else
            (let s2 = fst (increment_ref_count s1 h)
             in (case commit_node s2 cu final_filename target_parent_id h
                        (file_size existing_store) of
                   (s3, file_meta) \<Rightarrow> (s3, Inr (Some file_meta))))))))"

text \<open>
  \<^verbatim>\<open>merge_chunks\<close>.  First its two loops over the chunk rows.  \<open>write_chunks\<close> is the loop
  inside \<^verbatim>\<open>with open(final_path, "wb")\<close>: each chunk file is appended to the output and to
  the input of the hasher (\<open>hashed\<close>) and is removed; a row without a temporary file raises,
  and leaves what was written so far.  \<open>discard_chunks\<close> is the loop of the other branch.
\<close>

fun write_chunks ::
  "file_chunk list \<Rightarrow> (string \<rightharpoonup> bytes) \<Rightarrow> string \<Rightarrow> bytes
     \<Rightarrow> (string \<rightharpoonup> bytes) \<times> (error + bytes)" where
  "write_chunks [] d final_path hashed = (d, Inr hashed)"
| "write_chunks (chunk # rest) d final_path hashed =
     (case temp_path chunk of
        None \<Rightarrow> (d, Inl (TempMissing (chunk_index chunk)))
      | Some tp \<Rightarrow>
          if tp = [] then (d, Inl (TempMissing (chunk_index chunk)))
          else
            (case d tp of
               None \<Rightarrow> (d, Inl (TempMissing (chunk_index chunk)))
             | Some chunk_content \<Rightarrow>
                 write_chunks rest
                   ((d(final_path \<mapsto> (case d final_path of None \<Rightarrow> [] | Some w \<Rightarrow> w)
                                      @ chunk_content))(tp := None))
                   final_path (hashed @ chunk_content)))"

text \<open>The bytes of the temporary file of a chunk row (none when there is no such file).\<close>

definition chunk_bytes :: "(string \<rightharpoonup> bytes) \<Rightarrow> file_chunk \<Rightarrow> bytes" where
  "chunk_bytes d chunk =
     (case temp_path chunk of
        None \<Rightarrow> []
      | Some tp \<Rightarrow> (case d tp of None \<Rightarrow> [] | Some b \<Rightarrow> b))"

fun discard_chunks :: "file_chunk list \<Rightarrow> (string \<rightharpoonup> bytes) \<Rightarrow> (string \<rightharpoonup> bytes)" where
  "discard_chunks [] d = d"
| "discard_chunks (chunk # rest) d =
     (case temp_path chunk of
        None \<Rightarrow> discard_chunks rest d
      | Some tp \<Rightarrow> discard_chunks rest (if tp = [] then d else d(tp := None)))"

definition merge_chunks ::
  "(bytes \<Rightarrow> string) \<Rightarrow> db \<Rightarrow> int \<Rightarrow> string \<Rightarrow> string \<Rightarrow> string \<Rightarrow> int \<Rightarrow> string option \<Rightarrow> bool
     \<Rightarrow> string option \<Rightarrow> db \<times> (error + file_meta)" where
  "merge_chunks digest s cu upl fname h p relative_path auto_rename storage =
     (case users s cu of
        None \<Rightarrow> (s, Inl Unauthenticated)
      | Some current_user \<Rightarrow>
     if \<not> is_filename_valid fname then (s, Inl InvalidName)
     else
     (case target_parent s cu p relative_path of
        (s1, target_parent_id) \<Rightarrow>
     (case final_name s1 cu fname target_parent_id auto_rename of
        Inl e \<Rightarrow> (s1, Inl e)
      | Inr final_filename \<Rightarrow>
     (let cs = get_all_chunks s1 upl in
     if cs = [] \<and> h \<noteq> digest [] then (s1, Inl SessionNotFound)
     else
     (case find (\<lambda>c. \<not> is_uploaded c) cs of
        Some c \<Rightarrow> (s1, Inl (ChunkMissing (chunk_index c)))
      | None \<Rightarrow>
     (case storage of
        None \<Rightarrow> (s1, Inl NoStorage)
      | Some storage_base_path \<Rightarrow>
     (let final_path = path_join storage_base_path h in
     (case (if disk s1 final_path = None then
              (case write_chunks cs ((disk s1)(final_path \<mapsto> [])) final_path [] of
                 (d, Inl e) \<Rightarrow> (s1\<lparr>disk := d\<rparr>, Inl e)
               | (d, Inr hashed) \<Rightarrow>
                   if digest hashed \<noteq> h then (s1\<lparr>disk := d(final_path := None)\<rparr>, Inl HashMismatch)
                   else (s1\<lparr>disk := d\<rparr>, Inr ()))
            else (s1\<lparr>disk := discard_chunks cs (disk s1)\<rparr>, Inr ())) of
        (s2, Inl e) \<Rightarrow> (s2, Inl e)
      | (s2, Inr r) \<Rightarrow>
     (let fsize = (case disk s2 final_path of None \<Rightarrow> 0 | Some w \<Rightarrow> int (length w)) in
     if quota_used current_user + fsize > quota_total current_user
     then ((if get_by_hash s2 h = None then s2\<lparr>disk := (disk s2)(final_path := None)\<rparr> else s2),
           Inl QuotaExceeded)
     else
     (let s3 = (case get_by_hash s2 h of
                  Some existing_store \<Rightarrow> fst (increment_ref_count s2 h)
                | None \<Rightarrow> fst (create_file_store s2 h final_path fsize))
      in (case commit_node s3 cu final_filename target_parent_id h fsize of
            (s4, file_meta) \<Rightarrow> (delete_chunks s4 upl, Inr file_meta))))))))))))"

text \<open>
  \<^verbatim>\<open>permanent_delete_file\<close> and the function \<^verbatim>\<open>calculate_size\<close> nested in it.  The sizes of
  the children of a folder are added up by \<open>sum_each\<close>, the \<^verbatim>\<open>for\<close> loop with its
  accumulator; the children are those that \<^verbatim>\<open>get_trash_files\<close> lists, at most 10000.
\<close>

fun sum_each ::
  "('a \<Rightarrow> 's \<Rightarrow> 's \<times> (error + int)) \<Rightarrow> 'a list \<Rightarrow> 's \<Rightarrow> int \<Rightarrow> 's \<times> (error + int)" where
  "sum_each f [] s acc = (s, Inr acc)"
| "sum_each f (x # xs) s acc =
     (case f x s of
        (s', Inl e) \<Rightarrow> (s', Inl e)
      | (s', Inr n) \<Rightarrow> sum_each f xs s' (acc + n))"

fun calculate_size :: "nat \<Rightarrow> int \<Rightarrow> int \<Rightarrow> db \<Rightarrow> file_meta \<Rightarrow> db \<times> (error + int)" where
  "calculate_size 0 now cu s meta = (s, Inl RecursionError)"
| "calculate_size (Suc depth) now cu s meta =
     (if is_folder meta then
        (case get_trash_files depth now s cu (Some (meta_id meta)) 0 10000 of
           (s1, Inl e) \<Rightarrow> (s1, Inl e)
         | (s1, Inr children) \<Rightarrow>
             sum_each (\<lambda>child st. calculate_size depth now cu st child) children s1 0)
      else (s, Inr (node_file_size s meta)))"

definition permanent_delete_file ::
  "nat \<Rightarrow> int \<Rightarrow> db \<Rightarrow> int \<Rightarrow> int \<Rightarrow> db \<times> (error + file_meta option)" where
  "permanent_delete_file depth now s cu file_id =
     (case crud_get s file_id of
        None \<Rightarrow> (s, Inl NotFound)
      | Some file_meta \<Rightarrow>
          (case calculate_size depth now cu s file_meta of
             (s1, Inl e) \<Rightarrow> (s1, Inl e)
           | (s1, Inr size_to_free) \<Rightarrow>
               (case permanent_remove depth s1 file_id cu of
                  (s2, Inl e) \<Rightarrow> (s2, Inl e)
                | (s2, Inr r) \<Rightarrow> (update_quota_used s2 cu (- size_to_free), Inr r))))"

section \<open>Uploads one after the other\<close>

text \<open>
  The three ways in which content is committed, as requests with the arguments of the
  endpoints \<^verbatim>\<open>upload_file\<close>, \<^verbatim>\<open>merge_chunks\<close> and \<^verbatim>\<open>check_fast_upload\<close>, and a server that
  handles a list of requests one after the other, each on the state the one before has
  left.  The hash under which a request commits is the digest of the uploaded content for a
  whole-file upload and the hash the client names for the other two.
\<close>

datatype upload_request =
    WholeFile int string bytes int "string option" bool string "string option"
  | MergeSession int string string string int "string option" bool "string option"
  | FastUpload int string string int "string option" bool

fun request_hash :: "(bytes \<Rightarrow> string) \<Rightarrow> upload_request \<Rightarrow> string" where
  "request_hash digest (WholeFile cu filename content p rp ar tmp storage) = digest content"
| "request_hash digest (MergeSession cu upl fname h p rp ar storage) = h"
| "request_hash digest (FastUpload cu h fname p rp ar) = h"

fun serve :: "(bytes \<Rightarrow> string) \<Rightarrow> db \<Rightarrow> upload_request \<Rightarrow> db \<times> (error + file_meta option)" where
  "serve digest s (WholeFile cu filename content p rp ar tmp storage) =
     (case upload_file digest s cu filename content p rp ar tmp storage of
        (s', Inl e) \<Rightarrow> (s', Inl e)
      | (s', Inr m) \<Rightarrow> (s', Inr (Some m)))"
| "serve digest s (MergeSession cu upl fname h p rp ar storage) =
     (case merge_chunks digest s cu upl fname h p rp ar storage of
        (s', Inl e) \<Rightarrow> (s', Inl e)
      | (s', Inr m) \<Rightarrow> (s', Inr (Some m)))"
| "serve digest s (FastUpload cu h fname p rp ar) = check_fast_upload s cu h fname p rp ar"

fun serve_all ::
  "(bytes \<Rightarrow> string) \<Rightarrow> db \<Rightarrow> upload_request list \<Rightarrow> db \<times> (error + file_meta option) list" where
  "serve_all digest s [] = (s, [])"
| "serve_all digest s (q # qs) =
     (case serve digest s q of
        (s1, r) \<Rightarrow> (case serve_all digest s1 qs of (s2, rs) \<Rightarrow> (s2, r # rs)))"

text \<open>
  A request has committed when it returned a file row.  \<open>commits\<close> counts the requests
  of a run that committed under the hash \<open>h\<close>; \<open>records_of\<close> are the blob records of a
  hash, and \<open>nodes_of\<close> the rows of the namespace that refer to it.
\<close>

definition committed :: "error + file_meta option \<Rightarrow> bool" where
  "committed r = (case r of Inr (Some m) \<Rightarrow> True | _ \<Rightarrow> False)"

definition commits ::
  "(bytes \<Rightarrow> string) \<Rightarrow> string \<Rightarrow> upload_request list \<Rightarrow> (error + file_meta option) list \<Rightarrow> nat" where
  "commits digest h qs rs =
     length (filter (\<lambda>(q, r). request_hash digest q = h \<and> committed r) (zip qs rs))"

definition records_of :: "db \<Rightarrow> string \<Rightarrow> file_store list" where
  "records_of s h = filter (\<lambda>r. store_hash r = h) (stores s)"

definition nodes_of :: "db \<Rightarrow> string \<Rightarrow> file_meta list" where
  "nodes_of s h = filter (\<lambda>n. file_hash n = Some h) (metas s)"

text \<open>
  What one request does to the two tables, for the hash \<open>hr\<close> under which it commits.  A
  request that commits appends its file row, after the folders of its relative path, and
  either raises the count of every record of the hash by one or, when there is none,
  appends a record with count 1.  A request that does not commit leaves the blob table
  alone and appends folders at most.
\<close>

definition outcome :: "db \<Rightarrow> db \<Rightarrow> error + file_meta option \<Rightarrow> string \<Rightarrow> bool" where
  "outcome s s' r hr =
     (case r of
        Inr (Some m) \<Rightarrow>
          file_hash m = Some hr
          \<and> (\<exists>new. metas s' = metas s @ new @ [m] \<and> (\<forall>n \<in> set new. file_hash n = None))
          \<and> (records_of s hr \<noteq> []
               \<and> stores s' = map (\<lambda>r. if store_hash r = hr then r\<lparr>ref_count := ref_count r + 1\<rparr>
                                       else r) (stores s)
             \<or> records_of s hr = []
               \<and> (\<exists>rec. stores s' = stores s @ [rec] \<and> store_hash rec = hr \<and> ref_count rec = 1))
      | _ \<Rightarrow> stores s' = stores s
             \<and> (\<exists>new. metas s' = metas s @ new \<and> (\<forall>n \<in> set new. file_hash n = None)))"

text \<open>
  The books balance for a hash at the number \<open>k\<close>: exactly \<open>k\<close> rows refer to it, and
  it has no record when \<open>k\<close> is 0 and otherwise exactly one, whose count is \<open>k\<close>.
\<close>

definition accounted :: "db \<Rightarrow> string \<Rightarrow> nat \<Rightarrow> bool" where
  "accounted s h k =
     (length (nodes_of s h) = k
      \<and> (if k = 0 then records_of s h = []
         else (\<exists>rec. records_of s h = [rec] \<and> ref_count rec = int k)))"

section \<open>Invariants of the namespace\<close>

text \<open>
  The primary key of \<^verbatim>\<open>file_meta\<close>: identifiers are pairwise different and below the
  counter.  The naming invariant: no two rows that are not soft-deleted have the same
  owner, the same parent and the same name.  The parent pointers of one owner as a
  relation from a row to its parent (the root 0 is no row).
\<close>

definition keyed :: "db \<Rightarrow> bool" where
  "keyed s = (distinct (map meta_id (metas s)) \<and> list_all (\<lambda>n. meta_id n < next_id s) (metas s))"

definition unique_names :: "db \<Rightarrow> bool" where
  "unique_names s =
     distinct (map (\<lambda>n. (user_id n, parent_id n, file_name n))
                 (filter (\<lambda>n. \<not> is_deleted n) (metas s)))"

definition parent_rel :: "db \<Rightarrow> int \<Rightarrow> (int \<times> int) set" where
  "parent_rel s u =
     {(meta_id n, parent_id n) | n. n \<in> set (metas s) \<and> user_id n = u \<and> meta_id n \<noteq> 0}"

definition well_named :: "db \<Rightarrow> bool" where
  "well_named s = (keyed s \<and> unique_names s)"

section \<open>What restore reaches\<close>

text \<open>
  The rows that the downward pass of \<^verbatim>\<open>restore\<close> reaches from a row: the soft-deleted
  children of a folder, and again their soft-deleted children when they are folders.
  \<open>undelete_all\<close> clears the deletion fields of the rows with the given identifiers, and
  \<open>undelete_deleted\<close> those among them that are marked deleted.
\<close>

inductive_set del_reach :: "db \<Rightarrow> int \<Rightarrow> file_meta \<Rightarrow> file_meta set"
  for s :: db and u :: int and root :: file_meta where
    child: "is_folder root \<Longrightarrow> c \<in> set (metas s) \<Longrightarrow> parent_id c = meta_id root
            \<Longrightarrow> user_id c = u \<Longrightarrow> is_deleted c \<Longrightarrow> c \<in> del_reach s u root"
  | step: "p \<in> del_reach s u root \<Longrightarrow> is_folder p \<Longrightarrow> c \<in> set (metas s)
            \<Longrightarrow> parent_id c = meta_id p \<Longrightarrow> user_id c = u \<Longrightarrow> is_deleted c
            \<Longrightarrow> c \<in> del_reach s u root"

definition undelete_all :: "int set \<Rightarrow> file_meta list \<Rightarrow> file_meta list" where
  "undelete_all A mem =
     map (\<lambda>n. if meta_id n \<in> A then n\<lparr>is_deleted := False, deleted_at := None\<rparr> else n) mem"

definition undelete_deleted :: "int set \<Rightarrow> file_meta list \<Rightarrow> file_meta list" where
  "undelete_deleted B mem =
     map (\<lambda>n. if meta_id n \<in> B \<and> is_deleted n
               then n\<lparr>is_deleted := False, deleted_at := None\<rparr> else n) mem"

section \<open>What copy clones\<close>

text \<open>
  The rows that the recursion of \<^verbatim>\<open>copy\<close> reaches from a row: the children of a folder that
  are not deleted, and again their children that are not deleted when they are folders.
\<close>

inductive_set act_reach :: "db \<Rightarrow> int \<Rightarrow> file_meta \<Rightarrow> file_meta set"
  for s :: db and u :: int and root :: file_meta where
    child: "is_folder root \<Longrightarrow> c \<in> set (metas s) \<Longrightarrow> parent_id c = meta_id root
            \<Longrightarrow> user_id c = u \<Longrightarrow> \<not> is_deleted c \<Longrightarrow> c \<in> act_reach s u root"
  | step: "p \<in> act_reach s u root \<Longrightarrow> is_folder p \<Longrightarrow> c \<in> set (metas s)
            \<Longrightarrow> parent_id c = meta_id p \<Longrightarrow> user_id c = u \<Longrightarrow> \<not> is_deleted c
            \<Longrightarrow> c \<in> act_reach s u root"

text \<open>
  Reading the log of a copy.  \<open>cloned_files lg h\<close> counts the logged file rows of hash \<open>h\<close>;
  \<open>bump lg\<close> adds these counts to the reference counts of the blob table (the empty hash is
  never counted: \<^verbatim>\<open>if obj.file_hash\<close>); \<open>clone_of u\<close> says that the second row of a pair
  is a fresh active row of owner \<open>u\<close> with the kind and the hash of the first; \<open>under lg\<close>
  says that a pair hangs below another pair of the log, source below source and clone below
  clone.
\<close>

definition cloned_files :: "copy_log \<Rightarrow> string \<Rightarrow> nat" where
  "cloned_files lg h =
     length (filter (\<lambda>pr. \<not> is_folder (fst pr) \<and> file_hash (fst pr) = Some h) lg)"

definition bump :: "copy_log \<Rightarrow> file_store list \<Rightarrow> file_store list" where
  "bump lg rs =
     map (\<lambda>r. if store_hash r = [] then r
               else r\<lparr>ref_count := ref_count r + int (cloned_files lg (store_hash r))\<rparr>) rs"

definition clone_of :: "int \<Rightarrow> file_meta \<times> file_meta \<Rightarrow> bool" where
  "clone_of u pr =
     (user_id (fst pr) = u \<and> user_id (snd pr) = u \<and> is_folder (snd pr) = is_folder (fst pr)
      \<and> file_hash (snd pr) = file_hash (fst pr) \<and> \<not> is_deleted (snd pr))"

definition under :: "copy_log \<Rightarrow> file_meta \<times> file_meta \<Rightarrow> bool" where
  "under lg pr =
     list_ex (\<lambda>up. is_folder (fst up) \<and> parent_id (fst pr) = meta_id (fst up)
                   \<and> parent_id (snd pr) = meta_id (snd up)) lg"

definition grows :: "int \<Rightarrow> db \<times> copy_log \<Rightarrow> copy_log \<Rightarrow> db \<times> copy_log \<Rightarrow> bool" where
  "grows u st lg st' =
     (snd st' = snd st @ lg
      \<and> fst st' = (fst st)\<lparr>metas := metas (fst st) @ map snd lg,
                           next_id := next_id (fst st) + int (length lg),
                           stores := bump lg (stores (fst st))\<rparr>
      \<and> list_all (clone_of u) lg)"

text \<open>
  What one call of \<^verbatim>\<open>copy\<close> on row \<open>i\<close> with target \<open>tgt\<close> leaves behind, from the state and
  log \<open>st\<close> to \<open>st'\<close>: the log has grown by \<open>lg\<close>, the table by the clones of \<open>lg\<close>, the
  first pair of \<open>lg\<close> is the row asked for and its clone below \<open>tgt\<close>, every later source is
  a row that is not deleted and hangs below an earlier pair, and the clones have fresh
  identifiers and hang below \<open>tgt\<close> or below a fresh identifier.
\<close>

definition walked ::
  "int \<Rightarrow> db \<times> copy_log \<Rightarrow> int \<Rightarrow> int \<Rightarrow> copy_log \<Rightarrow> db \<times> copy_log \<Rightarrow> bool" where
  "walked u st i tgt lg st' =
     (grows u st lg st' \<and> keyed (fst st')
      \<and> list_all (\<lambda>pr. \<not> is_deleted (fst pr)) (tl lg)
      \<and> list_all (under lg) (tl lg)
      \<and> list_all (\<lambda>pr. next_id (fst st) \<le> meta_id (snd pr)) lg
      \<and> list_all (\<lambda>pr. parent_id (snd pr) = tgt \<or> next_id (fst st) \<le> parent_id (snd pr)) lg
      \<and> list_all (\<lambda>pr. fst pr \<in> set (metas (fst st'))) lg
      \<and> (lg = [] \<or> find_meta (fst st) i u = Some (fst (hd lg)) \<and> parent_id (snd (hd lg)) = tgt))"

text \<open>
  The same for the loop over the children of a folder whose pair is \<open>up\<close>, from the state
  and log \<open>st1\<close> after the folder's own clone: here every source is a row that is not
  deleted, and hangs below \<open>up\<close> or below a pair of the loop.
\<close>

definition looped ::
  "int \<Rightarrow> file_meta \<times> file_meta \<Rightarrow> db \<times> copy_log \<Rightarrow> copy_log \<Rightarrow> db \<times> copy_log \<Rightarrow> bool" where
  "looped u up st1 lg st' =
     (grows u st1 lg st' \<and> keyed (fst st')
      \<and> list_all (\<lambda>pr. \<not> is_deleted (fst pr)) lg
      \<and> list_all (under (up # lg)) lg
      \<and> list_all (\<lambda>pr. next_id (fst st1) \<le> meta_id (snd pr)) lg
      \<and> list_all (\<lambda>pr. parent_id (snd pr) = meta_id (snd up)
                         \<or> next_id (fst st1) \<le> parent_id (snd pr)) lg
      \<and> list_all (\<lambda>pr. fst pr \<in> set (metas (fst st'))) lg)"

text \<open>
  A state met during a copy below row \<open>i\<close> of the table \<open>s0\<close>, where \<open>D\<close> holds the
  identifiers of \<open>i\<close> and of its descendants: the table is that of \<open>s0\<close> followed by rows
  whose parents lie outside \<open>D\<close>, so that the children of the rows of \<open>D\<close> are as in \<open>s0\<close>.
\<close>

definition beside :: "db \<Rightarrow> int set \<Rightarrow> db \<times> copy_log \<Rightarrow> bool" where
  "beside s0 D st =
     (keyed (fst st)
      \<and> (\<exists>extra. metas (fst st) = metas s0 @ extra \<and> list_all (\<lambda>e. parent_id e \<notin> D) extra))"

section \<open>Example states\<close>

text \<open>Concrete states, on which the theorems below are tried.\<close>

definition two_slots :: db where
  "two_slots =
     \<lparr>metas = [], next_id = 1, stores = [],
      chunks = [\<lparr>upload_id = ''u1'', chunk_user_id = 7, chunk_file_hash = ''h'', chunk_index = 0,
                 chunk_size = 3, is_uploaded = True, temp_path = Some ''/tmp/u1_0''\<rparr>,
                \<lparr>upload_id = ''u1'', chunk_user_id = 7, chunk_file_hash = ''h'', chunk_index = 1,
                 chunk_size = 0, is_uploaded = False, temp_path = None\<rparr>],
      users = Map.empty, disk = Map.empty\<rparr>"

definition one_blob :: db where
  "one_blob =
     \<lparr>metas = [\<lparr>meta_id = 1, user_id = 7, parent_id = 0, file_name = ''a.txt'', is_folder = False,
                file_hash = Some ''h'', is_deleted = True, deleted_at = Some 5\<rparr>],
      next_id = 2,
      stores = [\<lparr>store_hash = ''h'', real_path = ''/data/h'', file_size = 3, ref_count = 1\<rparr>],
      chunks = [], users = Map.empty, disk = [''/data/h'' \<mapsto> ''abc'']\<rparr>"

text \<open>
  The digest in the examples: the values of MD5 on the three contents that the examples
  hash, and an injective stand-in on every other content.
\<close>

definition md5_known :: "bytes \<Rightarrow> string" where
  "md5_known b =
     (if b = [] then ''d41d8cd98f00b204e9800998ecf8427e''
      else if b = ''abc'' then ''900150983cd24fb0d6963f7d28e17f72''
      else if b = ''xyz'' then ''d16fb36f0911f878998c136191af705e''
      else ''other:'' @ b)"

definition pending_session :: db where
  "pending_session = two_slots\<lparr>users := [7 \<mapsto> \<lparr>quota_total = 100, quota_used = 0\<rparr>]\<rparr>"

definition no_session :: db where
  "no_session =
     \<lparr>metas = [], next_id = 1, stores = [], chunks = [],
      users = [7 \<mapsto> \<lparr>quota_total = 100, quota_used = 0\<rparr>], disk = Map.empty\<rparr>"

definition uploaded_session :: db where
  "uploaded_session =
     \<lparr>metas = [], next_id = 1, stores = [],
      chunks = [\<lparr>upload_id = ''u2'', chunk_user_id = 7,
                 chunk_file_hash = ''900150983cd24fb0d6963f7d28e17f72'', chunk_index = 1,
                 chunk_size = 1, is_uploaded = True, temp_path = Some ''/tmp/u2_1''\<rparr>,
                \<lparr>upload_id = ''u2'', chunk_user_id = 7,
                 chunk_file_hash = ''900150983cd24fb0d6963f7d28e17f72'', chunk_index = 0,
                 chunk_size = 2, is_uploaded = True, temp_path = Some ''/tmp/u2_0''\<rparr>],
      users = [7 \<mapsto> \<lparr>quota_total = 100, quota_used = 0\<rparr>],
      disk = [''/tmp/u2_0'' \<mapsto> ''ab'', ''/tmp/u2_1'' \<mapsto> ''c'']\<rparr>"

definition stored_blob_session :: db where
  "stored_blob_session =
     \<lparr>metas = [\<lparr>meta_id = 1, user_id = 8, parent_id = 0, file_name = ''abc.txt'',
                is_folder = False, file_hash = Some ''900150983cd24fb0d6963f7d28e17f72'',
                is_deleted = False, deleted_at = None\<rparr>],
      next_id = 2,
      stores = [\<lparr>store_hash = ''900150983cd24fb0d6963f7d28e17f72'',
                 real_path = ''/data/900150983cd24fb0d6963f7d28e17f72'', file_size = 3,
                 ref_count = 1\<rparr>],
      chunks = [\<lparr>upload_id = ''u3'', chunk_user_id = 7,
                 chunk_file_hash = ''900150983cd24fb0d6963f7d28e17f72'', chunk_index = 0,
                 chunk_size = 3, is_uploaded = True, temp_path = Some ''/tmp/u3_0''\<rparr>],
      users = [7 \<mapsto> \<lparr>quota_total = 100, quota_used = 0\<rparr>],
      disk = [''/data/900150983cd24fb0d6963f7d28e17f72'' \<mapsto> ''abc'',
              ''/tmp/u3_0'' \<mapsto> ''xyz'']\<rparr>"

definition three_ways :: "upload_request list" where
  "three_ways =
     [MergeSession 7 ''u2'' ''b.txt'' ''900150983cd24fb0d6963f7d28e17f72'' 0 None False
        (Some ''/data''),
      WholeFile 7 ''a.txt'' ''abc'' 0 None False ''/tmp/t1'' (Some ''/data''),
      FastUpload 7 ''900150983cd24fb0d6963f7d28e17f72'' ''c.txt'' 0 None False]"

text \<open>
  An active folder with one active file of 10 bytes in it; the owner's quota counts the
  10 bytes.
\<close>

definition folder_with_file :: db where
  "folder_with_file =
     \<lparr>metas = [\<lparr>meta_id = 1, user_id = 7, parent_id = 0, file_name = ''docs'', is_folder = True,
                file_hash = None, is_deleted = False, deleted_at = None\<rparr>,
               \<lparr>meta_id = 2, user_id = 7, parent_id = 1, file_name = ''r.pdf'', is_folder = False,
                file_hash = Some ''h10'', is_deleted = False, deleted_at = None\<rparr>],
      next_id = 3,
      stores = [\<lparr>store_hash = ''h10'', real_path = ''/data/h10'', file_size = 10, ref_count = 1\<rparr>],
      chunks = [],
      users = [7 \<mapsto> \<lparr>quota_total = 100, quota_used = 10\<rparr>],
      disk = [''/data/h10'' \<mapsto> ''0123456789'']\<rparr>"

text \<open>
  A namespace with one file at the root; one with a trashed file and an active file of the
  same name side by side; one with a file whose name has no extension.
\<close>

definition one_report :: db where
  "one_report =
     \<lparr>metas = [\<lparr>meta_id = 1, user_id = 7, parent_id = 0, file_name = ''report.pdf'',
                is_folder = False, file_hash = Some ''h10'', is_deleted = False,
                deleted_at = None\<rparr>],
      next_id = 2,
      stores = [\<lparr>store_hash = ''h10'', real_path = ''/data/h10'', file_size = 10, ref_count = 1\<rparr>],
      chunks = [],
      users = [7 \<mapsto> \<lparr>quota_total = 100, quota_used = 10\<rparr>],
      disk = [''/data/h10'' \<mapsto> ''0123456789'']\<rparr>"

definition trashed_twin :: db where
  "trashed_twin =
     \<lparr>metas = [\<lparr>meta_id = 1, user_id = 7, parent_id = 0, file_name = ''a.txt'',
                is_folder = False, file_hash = None, is_deleted = True, deleted_at = Some 5\<rparr>,
               \<lparr>meta_id = 2, user_id = 7, parent_id = 0, file_name = ''a.txt'',
                is_folder = False, file_hash = None, is_deleted = False, deleted_at = None\<rparr>],
      next_id = 3, stores = [], chunks = [],
      users = [7 \<mapsto> \<lparr>quota_total = 100, quota_used = 0\<rparr>], disk = Map.empty\<rparr>"

definition file_named_docs :: db where
  "file_named_docs =
     \<lparr>metas = [\<lparr>meta_id = 1, user_id = 7, parent_id = 0, file_name = ''docs'',
                is_folder = False, file_hash = None, is_deleted = False, deleted_at = None\<rparr>],
      next_id = 2, stores = [], chunks = [],
      users = [7 \<mapsto> \<lparr>quota_total = 100, quota_used = 0\<rparr>], disk = Map.empty\<rparr>"


text \<open>
  A folder \<open>A\<close> with a folder \<open>B\<close> in it, both active, and a soft-deleted file \<open>c.txt\<close> in
  \<open>B\<close>; and the same three rows after a cascading soft delete of \<open>A\<close>.
\<close>

definition nested_trash :: db where
  "nested_trash =
     \<lparr>metas = [\<lparr>meta_id = 1, user_id = 7, parent_id = 0, file_name = ''A'', is_folder = True,
                file_hash = None, is_deleted = False, deleted_at = None\<rparr>,
               \<lparr>meta_id = 2, user_id = 7, parent_id = 1, file_name = ''B'', is_folder = True,
                file_hash = None, is_deleted = False, deleted_at = None\<rparr>,
               \<lparr>meta_id = 3, user_id = 7, parent_id = 2, file_name = ''c.txt'', is_folder = False,
                file_hash = None, is_deleted = True, deleted_at = Some 5\<rparr>],
      next_id = 4, stores = [], chunks = [],
      users = [7 \<mapsto> \<lparr>quota_total = 100, quota_used = 0\<rparr>], disk = Map.empty\<rparr>"

definition all_trashed :: db where
  "all_trashed =
     \<lparr>metas = [\<lparr>meta_id = 1, user_id = 7, parent_id = 0, file_name = ''A'', is_folder = True,
                file_hash = None, is_deleted = True, deleted_at = Some 9\<rparr>,
               \<lparr>meta_id = 2, user_id = 7, parent_id = 1, file_name = ''B'', is_folder = True,
                file_hash = None, is_deleted = True, deleted_at = Some 9\<rparr>,
               \<lparr>meta_id = 3, user_id = 7, parent_id = 2, file_name = ''c.txt'', is_folder = False,
                file_hash = None, is_deleted = True, deleted_at = Some 9\<rparr>],
      next_id = 4, stores = [], chunks = [],
      users = [7 \<mapsto> \<lparr>quota_total = 100, quota_used = 0\<rparr>], disk = Map.empty\<rparr>"

text \<open>
  A folder D (1) with an active file a.txt (2), a trashed file b.txt (3) and a trashed
  folder S (4) that holds an active file c.txt (5); two blobs, referenced twice and once.
\<close>

definition half_trashed :: db where
  "half_trashed =
     \<lparr>metas = [\<lparr>meta_id = 1, user_id = 7, parent_id = 0, file_name = ''D'', is_folder = True,
                file_hash = None, is_deleted = False, deleted_at = None\<rparr>,
               \<lparr>meta_id = 2, user_id = 7, parent_id = 1, file_name = ''a.txt'', is_folder = False,
                file_hash = Some ''h1'', is_deleted = False, deleted_at = None\<rparr>,
               \<lparr>meta_id = 3, user_id = 7, parent_id = 1, file_name = ''b.txt'', is_folder = False,
                file_hash = Some ''h2'', is_deleted = True, deleted_at = Some 4\<rparr>,
               \<lparr>meta_id = 4, user_id = 7, parent_id = 1, file_name = ''S'', is_folder = True,
                file_hash = None, is_deleted = True, deleted_at = Some 6\<rparr>,
               \<lparr>meta_id = 5, user_id = 7, parent_id = 4, file_name = ''c.txt'', is_folder = False,
                file_hash = Some ''h1'', is_deleted = False, deleted_at = None\<rparr>],
      next_id = 6,
      stores = [\<lparr>store_hash = ''h1'', real_path = ''/data/h1'', file_size = 3, ref_count = 2\<rparr>,
                \<lparr>store_hash = ''h2'', real_path = ''/data/h2'', file_size = 4, ref_count = 1\<rparr>],
      chunks = [],
      users = [7 \<mapsto> \<lparr>quota_total = 100, quota_used = 10\<rparr>],
      disk = [''/data/h1'' \<mapsto> ''abc'', ''/data/h2'' \<mapsto> ''wxyz'']\<rparr>"

text \<open>
  A complete session of one chunk whose bytes are \<open>xyz\<close>, opened for the hash of \<open>abc\<close>.
\<close>

definition mismatched_session :: db where
  "mismatched_session =
     \<lparr>metas = [], next_id = 1, stores = [],
      chunks = [\<lparr>upload_id = ''u4'', chunk_user_id = 7,
                 chunk_file_hash = ''900150983cd24fb0d6963f7d28e17f72'', chunk_index = 0,
                 chunk_size = 3, is_uploaded = True, temp_path = Some ''/tmp/u4_0''\<rparr>],
      users = [7 \<mapsto> \<lparr>quota_total = 100, quota_used = 0\<rparr>],
      disk = [''/tmp/u4_0'' \<mapsto> ''xyz'']\<rparr>"

text \<open>
  The merge request of that session, claiming the hash of \<open>abc\<close>, and a later plain upload
  of the bytes \<open>abc\<close> by the same owner.
\<close>

definition merge_u4 :: "db \<Rightarrow> db \<times> (error + file_meta)" where
  "merge_u4 s =
     merge_chunks md5_known s 7 ''u4'' ''a.txt'' ''900150983cd24fb0d6963f7d28e17f72''
       0 None False (Some ''/data'')"

definition upload_abc :: "db \<Rightarrow> db \<times> (error + file_meta)" where
  "upload_abc s =
     upload_file md5_known s 7 ''b.txt'' ''abc'' 0 None False ''/tmp/t9'' (Some ''/data'')"


section \<open>Facts about the blob table\<close>

lemma find_map_keyed:
  "(\<And>x. P (f x) = P x) \<Longrightarrow> find P (map f xs) = map_option f (find P xs)"
  by (induction xs) simp_all

lemma find_hash_filtered:
  "find (\<lambda>r. store_hash r = h) (filter (\<lambda>r. store_hash r \<noteq> h) xs) = None"
  by (induction xs) simp_all

lemma find_append:
  "find P (xs @ ys) = (case find P xs of None \<Rightarrow> find P ys | Some x \<Rightarrow> Some x)"
  by (induction xs) simp_all

lemma filter_nil_of_find_none: "find P xs = None \<Longrightarrow> filter P xs = []"
  by (induction xs) (auto split: if_splits)

lemma get_by_hash_Some_hash: "get_by_hash s h = Some rec \<Longrightarrow> store_hash rec = h"
  by (auto simp: get_by_hash_def find_Some_iff)

lemma increment_ref_count_frame:
  "metas (fst (increment_ref_count s h)) = metas s"
  "disk (fst (increment_ref_count s h)) = disk s"
  "users (fst (increment_ref_count s h)) = users s"
  "chunks (fst (increment_ref_count s h)) = chunks s"
  "next_id (fst (increment_ref_count s h)) = next_id s"
  by (simp_all add: increment_ref_count_def Let_def)

lemma create_file_store_frame:
  "metas (fst (create_file_store s h path fsize)) = metas s"
  "disk (fst (create_file_store s h path fsize)) = disk s"
  "users (fst (create_file_store s h path fsize)) = users s"
  "chunks (fst (create_file_store s h path fsize)) = chunks s"
  "next_id (fst (create_file_store s h path fsize)) = next_id s"
  by (simp_all add: create_file_store_def increment_ref_count_def Let_def split: option.splits)

lemma get_by_hash_increment:
  "get_by_hash (fst (increment_ref_count s h)) h' =
     (if h' = h then map_option (\<lambda>r. r\<lparr>ref_count := ref_count r + 1\<rparr>) (get_by_hash s h)
      else get_by_hash s h')"
proof -
  let ?f = "\<lambda>r. if store_hash r = h then r\<lparr>ref_count := ref_count r + 1\<rparr> else r"
  have k: "find (\<lambda>r. store_hash r = h') (map ?f (stores s))
             = map_option ?f (find (\<lambda>r. store_hash r = h') (stores s))"
    by (rule find_map_keyed) simp
  show ?thesis
  proof (cases "get_by_hash s h'")
    case None
    then show ?thesis using k by (auto simp: increment_ref_count_def get_by_hash_def Let_def)
  next
    case (Some rec)
    then show ?thesis
      using k get_by_hash_Some_hash[OF Some]
      by (auto simp: increment_ref_count_def get_by_hash_def Let_def)
  qed
qed

lemma get_by_hash_decrement:
  "get_by_hash (fst (decrement_ref_count s h)) h' =
     (if h' = h then map_option (\<lambda>r. r\<lparr>ref_count := ref_count r - 1\<rparr>) (get_by_hash s h)
      else get_by_hash s h')"
proof -
  let ?f = "\<lambda>r. if store_hash r = h then r\<lparr>ref_count := ref_count r - 1\<rparr> else r"
  have k: "find (\<lambda>r. store_hash r = h') (map ?f (stores s))
             = map_option ?f (find (\<lambda>r. store_hash r = h') (stores s))"
    by (rule find_map_keyed) simp
  show ?thesis
  proof (cases "get_by_hash s h'")
    case None
    then show ?thesis using k by (auto simp: decrement_ref_count_def get_by_hash_def Let_def)
  next
    case (Some rec)
    then show ?thesis
      using k get_by_hash_Some_hash[OF Some]
      by (auto simp: decrement_ref_count_def get_by_hash_def Let_def)
  qed
qed

lemma create_file_store_fresh:
  assumes "get_by_hash s h = None"
  shows "create_file_store s h path fsize =
           (s\<lparr>stores := stores s @ [\<lparr>store_hash = h, real_path = path, file_size = fsize,
                                      ref_count = 1\<rparr>]\<rparr>,
            Some \<lparr>store_hash = h, real_path = path, file_size = fsize, ref_count = 1\<rparr>)"
proof -
  have "\<not> list_ex (\<lambda>r. store_hash r = h) (stores s)"
    using assms by (simp add: get_by_hash_def find_None_iff list_ex_iff)
  with assms show ?thesis
    by (simp add: create_file_store_def Let_def)
qed

lemma get_by_hash_create:
  assumes "get_by_hash s h = None"
  shows "get_by_hash (fst (create_file_store s h path fsize)) h' =
           (if h' = h
            then Some \<lparr>store_hash = h, real_path = path, file_size = fsize, ref_count = 1\<rparr>
            else get_by_hash s h')"
  using assms unfolding create_file_store_fresh[OF assms]
  by (simp add: get_by_hash_def find_append split: option.splits)

lemma commit_node_effect:
  assumes "commit_node s cu final_filename tp h fsize = (s', n)"
  shows "metas s' = metas s @ [n]" "file_hash n = Some h" "\<not> is_folder n" "\<not> is_deleted n"
    "user_id n = cu" "parent_id n = tp" "meta_id n = next_id s"
    "file_name n = get_unique_filename_crud s cu tp final_filename"
    "stores s' = stores s" "disk s' = disk s" "chunks s' = chunks s"
    "next_id s' = next_id s + 1"
  using assms
  by (auto simp: commit_node_def create_with_user_def insert_meta_def update_quota_used_def Let_def
      split: option.splits prod.splits)

section \<open>Chunk session initialisation\<close>

lemma filter_session_fresh:
  "filter (\<lambda>c. upload_id c = upl) (map (pending_chunk upl uid fh) is) =
   map (pending_chunk upl uid fh) is"
  by (induction "is") (simp_all add: pending_chunk_def)

lemma filter_other_fresh:
  "filter (\<lambda>c. upload_id c \<noteq> upl) (map (pending_chunk upl uid fh) is) = []"
  by (induction "is") (simp_all add: pending_chunk_def)

lemma filter_session_deleted:
  "filter (\<lambda>c. upload_id c = upl) (filter (\<lambda>c. upload_id c \<noteq> upl) cs) = []"
  by (induction cs) simp_all

lemma chunk_index_fresh:
  "map (chunk_index \<circ> pending_chunk upl uid fh) is = is"
  by (induction "is") (simp_all add: pending_chunk_def)

text \<open>
  Claim C9.  When rows of the session exist and their number is the requested chunk count,
  initialisation returns exactly those rows and leaves the state as it was.  When rows
  exist and their number differs, the old rows of the session are discarded and the
  session afterwards consists of exactly the freshly made rows: one pending row (not
  uploaded, size 0, no temporary path) for each index \<open>0, ..., total_chunks - 1\<close>; the
  rows of every other session stay.
\<close>

theorem create_init_chunks_reuse_or_reset:
  assumes "existing = filter (\<lambda>c. upload_id c = upl) (chunks s)"
      and "existing \<noteq> []"
  shows "(int (length existing) = total_chunks \<longrightarrow>
           create_init_chunks s upl uid fh total_chunks = (s, existing))
       \<and> (int (length existing) \<noteq> total_chunks \<longrightarrow>
           (let (s', new) = create_init_chunks s upl uid fh total_chunks in
              new = map (pending_chunk upl uid fh) [0..total_chunks - 1]
            \<and> filter (\<lambda>c. upload_id c = upl) (chunks s') = new
            \<and> map chunk_index new = [0..total_chunks - 1]
            \<and> (\<forall>c \<in> set new. \<not> is_uploaded c \<and> chunk_size c = 0 \<and> temp_path c = None)
            \<and> s' = s\<lparr>chunks := filter (\<lambda>c. upload_id c \<noteq> upl) (chunks s) @ new\<rparr>))"
proof (intro conjI impI)
  assume "int (length existing) = total_chunks"
  then show "create_init_chunks s upl uid fh total_chunks = (s, existing)"
    using assms by (simp add: create_init_chunks_def Let_def)
next
  assume "int (length existing) \<noteq> total_chunks"
  then show "(let (s', new) = create_init_chunks s upl uid fh total_chunks in
              new = map (pending_chunk upl uid fh) [0..total_chunks - 1]
            \<and> filter (\<lambda>c. upload_id c = upl) (chunks s') = new
            \<and> map chunk_index new = [0..total_chunks - 1]
            \<and> (\<forall>c \<in> set new. \<not> is_uploaded c \<and> chunk_size c = 0 \<and> temp_path c = None)
            \<and> s' = s\<lparr>chunks := filter (\<lambda>c. upload_id c \<noteq> upl) (chunks s) @ new\<rparr>)"
    using assms
    by (auto simp: create_init_chunks_def Let_def delete_chunks_def filter_session_fresh
        filter_session_deleted chunk_index_fresh pending_chunk_def)
qed


theorem create_init_chunks_reuse_or_reset_witness:
  "create_init_chunks two_slots ''u1'' 7 ''h'' 2 = (two_slots, chunks two_slots)
   \<and> snd (create_init_chunks two_slots ''u1'' 7 ''h'' 3) =
       [pending_chunk ''u1'' 7 ''h'' 0, pending_chunk ''u1'' 7 ''h'' 1, pending_chunk ''u1'' 7 ''h'' 2]
   \<and> chunks (fst (create_init_chunks two_slots ''u1'' 7 ''h'' 3)) =
       [pending_chunk ''u1'' 7 ''h'' 0, pending_chunk ''u1'' 7 ''h'' 1, pending_chunk ''u1'' 7 ''h'' 2]"
proof -
  have e: "chunks two_slots = filter (\<lambda>c. upload_id c = ''u1'') (chunks two_slots)"
    and n: "chunks two_slots \<noteq> []"
    by (simp_all add: two_slots_def)
  have u: "[0..(2::int)] = [0, 1, 2]" by (simp add: upto.simps)
  from create_init_chunks_reuse_or_reset[OF e n, of 2 7 "''h''"]
  have a: "create_init_chunks two_slots ''u1'' 7 ''h'' 2 = (two_slots, chunks two_slots)"
    by (simp add: two_slots_def)
  from create_init_chunks_reuse_or_reset[OF e n, of 3 7 "''h''"]
  have b: "snd (create_init_chunks two_slots ''u1'' 7 ''h'' 3) =
       [pending_chunk ''u1'' 7 ''h'' 0, pending_chunk ''u1'' 7 ''h'' 1, pending_chunk ''u1'' 7 ''h'' 2]
    \<and> chunks (fst (create_init_chunks two_slots ''u1'' 7 ''h'' 3)) =
       [pending_chunk ''u1'' 7 ''h'' 0, pending_chunk ''u1'' 7 ''h'' 1, pending_chunk ''u1'' 7 ''h'' 2]"
    by (simp add: two_slots_def u split: prod.splits)
  from a b show ?thesis by simp
qed

section \<open>Reference counts on purge\<close>

lemma decrement_ref_count_result:
  assumes "get_by_hash s h = Some rec"
  shows "decrement_ref_count s h =
           (s\<lparr>stores := map (\<lambda>r. if store_hash r = h then r\<lparr>ref_count := ref_count r - 1\<rparr> else r)
                           (stores s)\<rparr>,
            Some (rec\<lparr>ref_count := ref_count rec - 1\<rparr>))"
proof -
  have k: "find (\<lambda>r. store_hash r = h)
             (map (\<lambda>r. if store_hash r = h then r\<lparr>ref_count := ref_count r - 1\<rparr> else r) (stores s))
         = map_option (\<lambda>r. if store_hash r = h then r\<lparr>ref_count := ref_count r - 1\<rparr> else r)
             (find (\<lambda>r. store_hash r = h) (stores s))"
    by (rule find_map_keyed) simp
  have "store_hash rec = h"
    using assms by (auto simp: get_by_hash_def find_Some_iff)
  then show ?thesis
    using assms k by (simp add: decrement_ref_count_def get_by_hash_def Let_def)
qed

text \<open>
  Claim C3, as the code has it.  For a stored hash with count \<open>r\<close>,
  \<^verbatim>\<open>decrement_ref_count\<close> lowers the count of the record and returns the updated record
  with count \<open>r - 1\<close>, whatever that count is; it deletes nothing.  The deletion is the
  caller's: \<^verbatim>\<open>permanent_remove\<close> of a file row that refers to the hash removes the physical
  file and the record when the new count is not positive, and otherwise leaves the record
  with count \<open>r - 1\<close> and the file system as it was.
\<close>

theorem decrement_returns_record_and_purge_deletes:
  assumes "get_by_hash s h = Some rec"
  shows "decrement_ref_count s h =
           (s\<lparr>stores := map (\<lambda>r. if store_hash r = h then r\<lparr>ref_count := ref_count r - 1\<rparr> else r)
                           (stores s)\<rparr>,
            Some (rec\<lparr>ref_count := ref_count rec - 1\<rparr>))
       \<and> (find_meta s i u = Some obj \<and> \<not> is_folder obj \<and> file_hash obj = Some h \<longrightarrow>
            (let (s', r) = permanent_remove (Suc depth) s i u in
               r = Inr (Some obj)
             \<and> metas s' = filter (\<lambda>n. meta_id n \<noteq> i) (metas s)
             \<and> (if ref_count rec - 1 \<le> 0
                then get_by_hash s' h = None \<and> disk s' = (disk s)(real_path rec := None)
                else get_by_hash s' h = Some (rec\<lparr>ref_count := ref_count rec - 1\<rparr>)
                   \<and> disk s' = disk s)))"
proof (intro conjI impI)
  show "decrement_ref_count s h =
           (s\<lparr>stores := map (\<lambda>r. if store_hash r = h then r\<lparr>ref_count := ref_count r - 1\<rparr> else r)
                           (stores s)\<rparr>,
            Some (rec\<lparr>ref_count := ref_count rec - 1\<rparr>))"
    using assms by (rule decrement_ref_count_result)
next
  assume a: "find_meta s i u = Some obj \<and> \<not> is_folder obj \<and> file_hash obj = Some h"
  have k: "find (\<lambda>r. store_hash r = h)
             (map (\<lambda>r. if store_hash r = h then r\<lparr>ref_count := ref_count r - 1\<rparr> else r) (stores s))
         = Some (rec\<lparr>ref_count := ref_count rec - 1\<rparr>)"
    using decrement_ref_count_result[OF assms]
    by (simp add: decrement_ref_count_def get_by_hash_def Let_def)
  show "(let (s', r) = permanent_remove (Suc depth) s i u in
               r = Inr (Some obj)
             \<and> metas s' = filter (\<lambda>n. meta_id n \<noteq> i) (metas s)
             \<and> (if ref_count rec - 1 \<le> 0
                then get_by_hash s' h = None \<and> disk s' = (disk s)(real_path rec := None)
                else get_by_hash s' h = Some (rec\<lparr>ref_count := ref_count rec - 1\<rparr>)
                   \<and> disk s' = disk s))"
    using a assms decrement_ref_count_result[OF assms] k
    by (simp add: release_blob_def get_by_hash_def find_hash_filtered)
qed


theorem decrement_returns_record_and_purge_deletes_witness:
  "snd (decrement_ref_count one_blob ''h'') =
     Some \<lparr>store_hash = ''h'', real_path = ''/data/h'', file_size = 3, ref_count = 0\<rparr>
   \<and> stores (fst (permanent_remove 1 one_blob 1 7)) = []
   \<and> disk (fst (permanent_remove 1 one_blob 1 7)) ''/data/h'' = None
   \<and> metas (fst (permanent_remove 1 one_blob 1 7)) = []"
proof -
  have g: "get_by_hash one_blob ''h'' =
      Some \<lparr>store_hash = ''h'', real_path = ''/data/h'', file_size = 3, ref_count = 1\<rparr>"
    by (simp add: get_by_hash_def one_blob_def)
  have f: "find_meta one_blob 1 7 = Some (hd (metas one_blob))"
    by (simp add: find_meta_def one_blob_def)
  have s: "stores (fst (permanent_remove 1 one_blob 1 7)) = []"
    by (simp add: find_meta_def one_blob_def release_blob_def get_by_hash_def
        decrement_ref_count_def)
  from decrement_returns_record_and_purge_deletes[OF g, of 1 7 "hd (metas one_blob)" 0] f s
  show ?thesis
    by (simp add: one_blob_def split: prod.splits)
qed

text \<open>
  Claim C3 fails as stated: on a record with count 1, \<^verbatim>\<open>decrement_ref_count\<close> returns
  the record with count 0, and the record and the physical file are still there.
\<close>

theorem decrement_keeps_record_counterexample:
  "snd (decrement_ref_count one_blob ''h'') =
     Some \<lparr>store_hash = ''h'', real_path = ''/data/h'', file_size = 3, ref_count = 0\<rparr>
   \<and> stores (fst (decrement_ref_count one_blob ''h'')) =
     [\<lparr>store_hash = ''h'', real_path = ''/data/h'', file_size = 3, ref_count = 0\<rparr>]
   \<and> disk (fst (decrement_ref_count one_blob ''h'')) ''/data/h'' = Some ''abc''"
  by (simp add: decrement_ref_count_def one_blob_def get_by_hash_def)

section \<open>Path resolution: what it changes\<close>

lemma resolve_folders_effect:
  "resolve_folders s u cur parts = (s1, tp) \<Longrightarrow>
     stores s1 = stores s \<and> disk s1 = disk s \<and> chunks s1 = chunks s \<and> users s1 = users s
     \<and> (\<exists>new. metas s1 = metas s @ new
           \<and> (\<forall>n \<in> set new. is_folder n \<and> file_hash n = None \<and> \<not> is_deleted n \<and> user_id n = u))"
proof (induction parts arbitrary: s cur)
  case Nil
  then show ?case by simp
next
  case (Cons folder_name rest)
  show ?case
  proof (cases "folder_name = []")
    case True
    with Cons.prems have "resolve_folders s u cur rest = (s1, tp)" by simp
    from Cons.IH[OF this] show ?thesis .
  next
    case ne: False
    let ?P = "\<lambda>n. user_id n = u \<and> parent_id n = cur \<and> file_name n = folder_name
                  \<and> is_folder n \<and> \<not> is_deleted n"
    show ?thesis
    proof (cases "find ?P (metas s)")
      case (Some folder)
      with ne Cons.prems have "resolve_folders s u (meta_id folder) rest = (s1, tp)" by simp
      from Cons.IH[OF this] show ?thesis .
    next
      case None
      obtain sa nf where ins: "insert_meta s u cur folder_name True None = (sa, nf)"
        by (cases "insert_meta s u cur folder_name True None")
      then have sa: "metas sa = metas s @ [nf]" "stores sa = stores s" "disk sa = disk s"
        "chunks sa = chunks s" "users sa = users s"
        and nf: "?P nf" "file_hash nf = None"
        by (auto simp: insert_meta_def Let_def)
      have "filter ?P (metas sa) = [nf]"
        using filter_nil_of_find_none[OF None] sa(1) nf(1) by simp
      then have one: "\<not> length (sort_key meta_id (filter ?P (metas sa))) > 1" by simp
      from ne None ins one Cons.prems
      have "resolve_folders sa u (meta_id nf) rest = (s1, tp)"
        by (simp add: Let_def)
      from Cons.IH[OF this] sa nf show ?thesis by auto
    qed
  qed
qed

lemma target_parent_effect:
  "target_parent s cu p rp = (s1, tp) \<Longrightarrow>
     stores s1 = stores s \<and> disk s1 = disk s \<and> chunks s1 = chunks s \<and> users s1 = users s
     \<and> (\<exists>new. metas s1 = metas s @ new
           \<and> (\<forall>n \<in> set new. is_folder n \<and> file_hash n = None \<and> \<not> is_deleted n \<and> user_id n = cu))
     \<and> (rp = None \<longrightarrow> s1 = s)"
  using resolve_folders_effect[of s cu p _ s1 tp]
  by (auto simp: target_parent_def get_or_create_path_def split: option.splits if_splits)

section \<open>Merging a chunk session\<close>

lemma find_not_uploaded:
  "\<not> list_all is_uploaded cs \<Longrightarrow> \<exists>c. find (\<lambda>c. \<not> is_uploaded c) cs = Some c \<and> c \<in> set cs \<and> \<not> is_uploaded c"
  by (induction cs) auto

text \<open>
  Claim C7, as the code has it.  When the session has no rows and the claimed hash is not
  the digest of the empty content, or when a row of the session is not marked uploaded,
  the merge fails: with the not-found error in the first case and the chunk-missing error
  in the second, unless one of the earlier checks (authentication, legal name, name
  conflict) has already refused the request.  No blob record is written, the file system,
  the chunk rows and the quota stay as they were, and the only rows added to the namespace
  are the folders of the relative path, if one was given.
\<close>

theorem merge_requires_complete_session:
  assumes "cs = get_all_chunks s upl"
      and "(cs = [] \<and> h \<noteq> digest []) \<or> \<not> list_all is_uploaded cs"
  shows "\<exists>s' e new.
           merge_chunks digest s cu upl fname h p rp ar storage = (s', Inl e)
         \<and> (users s cu = None \<and> e = Unauthenticated
            \<or> \<not> is_filename_valid fname \<and> e = InvalidName
            \<or> (\<exists>i. e = NameConflict i)
            \<or> cs = [] \<and> e = SessionNotFound
            \<or> (\<exists>c \<in> set cs. \<not> is_uploaded c \<and> e = ChunkMissing (chunk_index c)))
         \<and> stores s' = stores s \<and> disk s' = disk s \<and> chunks s' = chunks s \<and> users s' = users s
         \<and> metas s' = metas s @ new
         \<and> (\<forall>n \<in> set new. is_folder n \<and> file_hash n = None)
         \<and> (rp = None \<longrightarrow> s' = s)"
proof (cases "users s cu")
  case None
  then show ?thesis by (simp add: merge_chunks_def)
next
  case (Some current_user)
  show ?thesis
  proof (cases "is_filename_valid fname")
    case False
    with Some show ?thesis by (simp add: merge_chunks_def)
  next
    case valid: True
    obtain s1 tp where t: "target_parent s cu p rp = (s1, tp)"
      by (cases "target_parent s cu p rp")
    note eff = target_parent_effect[OF t]
    from eff obtain new where new: "metas s1 = metas s @ new"
      "\<forall>n \<in> set new. is_folder n \<and> file_hash n = None" by auto
    have unchanged: "stores s1 = stores s" "disk s1 = disk s" "chunks s1 = chunks s"
      "users s1 = users s" "rp = None \<longrightarrow> s1 = s"
      using eff by auto
    have cs1: "get_all_chunks s1 upl = cs"
      using assms(1) unchanged(3) by (simp add: get_all_chunks_def)
    show ?thesis
    proof (cases "final_name s1 cu fname tp ar")
      case (Inl e)
      then have "\<exists>i. e = NameConflict i"
        by (auto simp: final_name_def split: if_splits option.splits)
      moreover have "merge_chunks digest s cu upl fname h p rp ar storage = (s1, Inl e)"
        using Some valid t Inl by (simp add: merge_chunks_def)
      ultimately show ?thesis using new unchanged by auto
    next
      case (Inr final_filename)
      show ?thesis
      proof (cases "cs = [] \<and> h \<noteq> digest []")
        case True
        then have "merge_chunks digest s cu upl fname h p rp ar storage = (s1, Inl SessionNotFound)"
          using Some valid t Inr cs1 by (simp add: merge_chunks_def)
        then show ?thesis using True new unchanged by auto
      next
        case False
        with assms(2) have "\<not> list_all is_uploaded cs" by blast
        from find_not_uploaded[OF this] obtain c where
          c: "find (\<lambda>c. \<not> is_uploaded c) cs = Some c" "c \<in> set cs" "\<not> is_uploaded c" by blast
        then have "cs \<noteq> []" by auto
        then have "merge_chunks digest s cu upl fname h p rp ar storage
                   = (s1, Inl (ChunkMissing (chunk_index c)))"
          using Some valid t Inr cs1 c(1) by (simp add: merge_chunks_def)
        then show ?thesis using c new unchanged by auto
      qed
    qed
  qed
qed

lemmas merge_eval =
  merge_chunks_def is_filename_valid_def illegal_chars_def target_parent_def final_name_def
  get_by_name_and_parent_def get_all_chunks_def md5_known_def path_join_def get_by_hash_def
  create_file_store_def commit_node_def create_with_user_def get_unique_filename_crud_def
  split_name_def rsplit_dot_def insert_meta_def update_quota_used_def delete_chunks_def
  increment_ref_count_def Let_def

theorem merge_requires_complete_session_witness:
  "merge_chunks md5_known pending_session 7 ''u1'' ''a.txt'' ''900150983cd24fb0d6963f7d28e17f72''
     0 None False (Some ''/data'') = (pending_session, Inl (ChunkMissing 1))"
proof -
  have cs: "get_all_chunks pending_session ''u1'' = chunks two_slots"
    by (simp add: get_all_chunks_def pending_session_def two_slots_def)
  have pre: "(get_all_chunks pending_session ''u1'' = []
               \<and> ''900150983cd24fb0d6963f7d28e17f72'' \<noteq> md5_known [])
           \<or> \<not> list_all is_uploaded (get_all_chunks pending_session ''u1'')"
    by (simp add: cs two_slots_def)
  from merge_requires_complete_session[where s = pending_session and upl = "''u1''"
      and digest = md5_known and h = "''900150983cd24fb0d6963f7d28e17f72''" and cu = 7
      and fname = "''a.txt''" and p = 0 and rp = None and ar = False
      and storage = "Some ''/data''", OF refl pre]
  obtain s' e where r: "merge_chunks md5_known pending_session 7 ''u1'' ''a.txt''
       ''900150983cd24fb0d6963f7d28e17f72'' 0 None False (Some ''/data'') = (s', Inl e)"
    and s: "s' = pending_session"
    and e: "users pending_session 7 = None \<and> e = Unauthenticated
            \<or> \<not> is_filename_valid ''a.txt'' \<and> e = InvalidName
            \<or> (\<exists>i. e = NameConflict i)
            \<or> get_all_chunks pending_session ''u1'' = [] \<and> e = SessionNotFound
            \<or> (\<exists>c \<in> set (get_all_chunks pending_session ''u1'').
                  \<not> is_uploaded c \<and> e = ChunkMissing (chunk_index c))"
    by auto
  have "e = ChunkMissing 1"
    using r by (simp add: merge_eval pending_session_def two_slots_def)
  with r s show ?thesis by simp
qed

text \<open>
  Claim C7 fails as stated: a merge for a session that does not exist goes through when
  the claimed hash is the digest of the empty content; it commits a blob record of size 0
  and a file row.
\<close>

theorem merge_without_session_counterexample:
  "get_all_chunks no_session ''nosuch'' = []
   \<and> snd (merge_chunks md5_known no_session 7 ''nosuch'' ''e.txt''
            ''d41d8cd98f00b204e9800998ecf8427e'' 0 None False (Some ''/data''))
     = Inr \<lparr>meta_id = 1, user_id = 7, parent_id = 0, file_name = ''e.txt'', is_folder = False,
            file_hash = Some ''d41d8cd98f00b204e9800998ecf8427e'', is_deleted = False,
            deleted_at = None\<rparr>
   \<and> stores (fst (merge_chunks md5_known no_session 7 ''nosuch'' ''e.txt''
            ''d41d8cd98f00b204e9800998ecf8427e'' 0 None False (Some ''/data'')))
     = [\<lparr>store_hash = ''d41d8cd98f00b204e9800998ecf8427e'',
         real_path = ''/data/d41d8cd98f00b204e9800998ecf8427e'', file_size = 0, ref_count = 1\<rparr>]"
  by (simp add: merge_eval no_session_def)

lemma write_chunks_all_present:
  assumes "\<forall>c \<in> set cs. \<exists>tp. temp_path c = Some tp \<and> tp \<noteq> [] \<and> tp \<noteq> fp \<and> d tp \<noteq> None"
      and "distinct (map temp_path cs)"
      and "d fp = Some w"
  shows "write_chunks cs d fp hashed =
           (\<lambda>x. if x = fp then Some (w @ concat (map (chunk_bytes d) cs))
                 else if Some x \<in> temp_path ` set cs then None else d x,
            Inr (hashed @ concat (map (chunk_bytes d) cs)))"
  using assms
proof (induction cs arbitrary: d w hashed)
  case Nil
  then show ?case by (auto simp: fun_eq_iff)
next
  case (Cons c rest)
  from Cons.prems(1) obtain tp b where tp: "temp_path c = Some tp" "tp \<noteq> []" "tp \<noteq> fp"
    "d tp = Some b" by auto
  let ?d1 = "(d(fp \<mapsto> w @ b))(tp := None)"
  have step: "write_chunks (c # rest) d fp hashed = write_chunks rest ?d1 fp (hashed @ b)"
    using tp Cons.prems(3) by simp
  have others: "\<forall>c' \<in> set rest. \<exists>tp'. temp_path c' = Some tp' \<and> tp' \<noteq> [] \<and> tp' \<noteq> fp
                  \<and> tp' \<noteq> tp \<and> d tp' \<noteq> None"
    using Cons.prems(1,2) tp(1) by (auto simp: image_iff) metis
  then have p1: "\<forall>c' \<in> set rest. \<exists>tp'. temp_path c' = Some tp' \<and> tp' \<noteq> [] \<and> tp' \<noteq> fp
                  \<and> ?d1 tp' \<noteq> None"
    by auto
  have p2: "distinct (map temp_path rest)" using Cons.prems(2) by simp
  have p3: "?d1 fp = Some (w @ b)" using tp(3) by simp
  have same: "map (chunk_bytes ?d1) rest = map (chunk_bytes d) rest"
    using others by (auto simp: chunk_bytes_def)
  have cb: "chunk_bytes d c = b" using tp by (simp add: chunk_bytes_def)
  have notin: "Some tp \<notin> temp_path ` set rest"
    using Cons.prems(2) tp(1) by (auto simp: image_iff)
  show ?case
    unfolding step Cons.IH[OF p1 p2 p3] same
    using tp cb notin by (auto simp: fun_eq_iff)
qed

text \<open>
  The integrity check where it is reached.  Take a merge that has passed the earlier checks, with all
  rows uploaded, every temporary file in place, and no file yet at the output path of the
  claimed hash.  Then the output is the concatenation of the chunk files in index order,
  and the merge fails with the integrity error exactly when the digest of that output
  differs from the claimed hash.  On a mismatch the output file is removed, no blob record
  is written, and the namespace and the quota are as path resolution left them.  On a match
  the merge goes on to the quota check, and when that passes it returns a file row for the
  claimed hash, with the output stored and a blob record present.
\<close>

lemma merge_integrity_check:
  assumes "users s cu = Some current_user"
      and "is_filename_valid fname"
      and "target_parent s cu p rp = (s1, target_parent_id)"
      and "final_name s1 cu fname target_parent_id ar = Inr final_filename"
      and "cs = get_all_chunks s upl"
      and "list_all is_uploaded cs"
      and "cs \<noteq> [] \<or> h = digest []"
      and "final_path = path_join base h"
      and "disk s final_path = None"
      and "\<forall>c \<in> set cs. \<exists>tp. temp_path c = Some tp \<and> tp \<noteq> [] \<and> tp \<noteq> final_path
                              \<and> disk s tp \<noteq> None"
      and "distinct (map temp_path cs)"
      and "content = concat (map (chunk_bytes (disk s)) cs)"
      and "merge_chunks digest s cu upl fname h p rp ar (Some base) = (s', r)"
  shows "(r = Inl HashMismatch \<longleftrightarrow> digest content \<noteq> h)
       \<and> (digest content \<noteq> h \<longrightarrow>
            disk s' final_path = None \<and> stores s' = stores s \<and> metas s' = metas s1
            \<and> users s' = users s)
       \<and> (digest content = h \<longrightarrow>
            (if quota_used current_user + int (length content) > quota_total current_user
             then r = Inl QuotaExceeded
             else (\<exists>node. r = Inr node \<and> file_hash node = Some h \<and> \<not> is_folder node
                        \<and> disk s' final_path = Some content
                        \<and> (\<exists>rec. get_by_hash s' h = Some rec))))"
proof -
  note eff = target_parent_effect[OF assms(3)]
  have d1: "disk s1 = disk s" and st1: "stores s1 = stores s" and u1: "users s1 = users s"
    and c1: "chunks s1 = chunks s"
    using eff by auto
  have cs1: "get_all_chunks s1 upl = cs"
    using assms(5) c1 by (simp add: get_all_chunks_def)
  have nf: "find (\<lambda>c. \<not> is_uploaded c) cs = None"
    using assms(6) by (auto simp: find_None_iff list_all_iff)
  have ne: "\<not> (cs = [] \<and> h \<noteq> digest [])" using assms(7) by auto
  let ?d0 = "(disk s)(final_path \<mapsto> [])"
  have pres: "\<forall>c \<in> set cs. \<exists>tp. temp_path c = Some tp \<and> tp \<noteq> [] \<and> tp \<noteq> final_path
                 \<and> ?d0 tp \<noteq> None"
    using assms(10) by auto
  have same: "map (chunk_bytes ?d0) cs = map (chunk_bytes (disk s)) cs"
    using assms(10) by (auto simp: chunk_bytes_def)
  define d' where "d' = (\<lambda>x. if x = final_path then Some content
                 else if Some x \<in> temp_path ` set cs then None else ?d0 x)"
  have "?d0 final_path = Some []" by simp
  from write_chunks_all_present[OF pres assms(11) this, of "[]"]
  have w: "write_chunks cs ?d0 final_path [] = (d', Inr content)"
    unfolding same by (simp only: d'_def assms(12) append_Nil)
  have dfp: "d' final_path = Some content" by (simp add: d'_def)
  show ?thesis
  proof (cases "digest content = h")
    case False
    have "merge_chunks digest s cu upl fname h p rp ar (Some base)
            = (s1\<lparr>disk := d'(final_path := None)\<rparr>, Inl HashMismatch)"
      using assms(1,2,3,4,8,9) cs1 nf ne d1 w False
      by (simp add: merge_chunks_def)
    with assms(13) have "s' = s1\<lparr>disk := d'(final_path := None)\<rparr>" "r = Inl HashMismatch" by auto
    then show ?thesis using False st1 u1 by simp
  next
    case True
    show ?thesis
    proof (cases "quota_used current_user + int (length content) > quota_total current_user")
      case over: True
      have "snd (merge_chunks digest s cu upl fname h p rp ar (Some base)) = Inl QuotaExceeded"
        using assms(1,2,3,4,8,9) cs1 nf ne d1 w True dfp over
        by (simp add: merge_chunks_def)
      with assms(13) have "r = Inl QuotaExceeded" by auto
      then show ?thesis using True over by simp
    next
      case fits: False
      let ?s2 = "s1\<lparr>disk := d'\<rparr>"
      have "\<exists>s4 node s3. merge_chunks digest s cu upl fname h p rp ar (Some base)
                 = (delete_chunks s4 upl, Inr node)
              \<and> commit_node s3 cu final_filename target_parent_id h (int (length content))
                 = (s4, node)
              \<and> disk s3 = d' \<and> (\<exists>rec. get_by_hash s3 h = Some rec)"
      proof (cases "get_by_hash ?s2 h")
        case None
        let ?s3 = "fst (create_file_store ?s2 h final_path (int (length content)))"
        obtain s4 node where cn:
          "commit_node ?s3 cu final_filename target_parent_id h (int (length content)) = (s4, node)"
          by (cases "commit_node ?s3 cu final_filename target_parent_id h (int (length content))")
        have "merge_chunks digest s cu upl fname h p rp ar (Some base)
                 = (delete_chunks s4 upl, Inr node)"
          using assms(1,2,3,4,9) cs1 nf ne d1 w True dfp fits None cn
          unfolding assms(8)
          by (simp add: merge_chunks_def Let_def)
        moreover have "disk ?s3 = d'"
          by (simp add: create_file_store_frame)
        moreover have "\<exists>rec. get_by_hash ?s3 h = Some rec"
          by (simp add: get_by_hash_create[OF None])
        ultimately show ?thesis using cn by blast
      next
        case (Some rec)
        let ?s3 = "fst (increment_ref_count ?s2 h)"
        obtain s4 node where cn:
          "commit_node ?s3 cu final_filename target_parent_id h (int (length content)) = (s4, node)"
          by (cases "commit_node ?s3 cu final_filename target_parent_id h (int (length content))")
        have "merge_chunks digest s cu upl fname h p rp ar (Some base)
                 = (delete_chunks s4 upl, Inr node)"
          using assms(1,2,3,4,9) cs1 nf ne d1 w True dfp fits Some cn
          unfolding assms(8)
          by (simp add: merge_chunks_def Let_def)
        moreover have "disk ?s3 = d'"
          by (simp add: increment_ref_count_frame)
        moreover have "\<exists>rec. get_by_hash ?s3 h = Some rec"
          using Some by (simp add: get_by_hash_increment)
        ultimately show ?thesis using cn by blast
      qed
      then obtain s4 node s3 where
        m: "merge_chunks digest s cu upl fname h p rp ar (Some base)
              = (delete_chunks s4 upl, Inr node)"
        and cn: "commit_node s3 cu final_filename target_parent_id h (int (length content))
              = (s4, node)"
        and d3: "disk s3 = d'" and g3: "\<exists>rec. get_by_hash s3 h = Some rec"
        by blast
      note ce = commit_node_effect[OF cn]
      have "get_by_hash (delete_chunks s4 upl) h = get_by_hash s3 h"
        using ce(9) by (simp add: get_by_hash_def delete_chunks_def)
      moreover have "disk (delete_chunks s4 upl) = d'"
        using ce(10) d3 by (simp add: delete_chunks_def)
      ultimately show ?thesis
        using m assms(13) True fits ce(2,3) g3 dfp by auto
    qed
  qed
qed

lemma merge_integrity_check_example:
  "snd (merge_chunks md5_known uploaded_session 7 ''u2'' ''a.txt''
          ''d16fb36f0911f878998c136191af705e'' 0 None False (Some ''/data'')) = Inl HashMismatch
   \<and> disk (fst (merge_chunks md5_known uploaded_session 7 ''u2'' ''a.txt''
          ''d16fb36f0911f878998c136191af705e'' 0 None False (Some ''/data'')))
         ''/data/d16fb36f0911f878998c136191af705e'' = None
   \<and> stores (fst (merge_chunks md5_known uploaded_session 7 ''u2'' ''a.txt''
          ''d16fb36f0911f878998c136191af705e'' 0 None False (Some ''/data''))) = []
   \<and> snd (merge_chunks md5_known uploaded_session 7 ''u2'' ''a.txt''
          ''900150983cd24fb0d6963f7d28e17f72'' 0 None False (Some ''/data'')) \<noteq> Inl HashMismatch"
proof -
  let ?s = uploaded_session
  let ?cs = "get_all_chunks ?s ''u2''"
  have cs: "?cs =
      [\<lparr>upload_id = ''u2'', chunk_user_id = 7,
         chunk_file_hash = ''900150983cd24fb0d6963f7d28e17f72'', chunk_index = 0,
         chunk_size = 2, is_uploaded = True, temp_path = Some ''/tmp/u2_0''\<rparr>,
       \<lparr>upload_id = ''u2'', chunk_user_id = 7,
         chunk_file_hash = ''900150983cd24fb0d6963f7d28e17f72'', chunk_index = 1,
         chunk_size = 1, is_uploaded = True, temp_path = Some ''/tmp/u2_1''\<rparr>]"
    by (simp add: get_all_chunks_def uploaded_session_def)
  have a1: "users ?s 7 = Some \<lparr>quota_total = 100, quota_used = 0\<rparr>"
    by (simp add: uploaded_session_def)
  have a2: "is_filename_valid ''a.txt''"
    by (simp add: is_filename_valid_def illegal_chars_def)
  have a3: "target_parent ?s 7 0 None = (?s, 0)" by (simp add: target_parent_def)
  have a4: "final_name ?s 7 ''a.txt'' 0 False = Inr ''a.txt''"
    by (simp add: final_name_def get_by_name_and_parent_def uploaded_session_def)
  have a6: "list_all is_uploaded ?cs" unfolding cs by simp
  have a7: "?cs \<noteq> [] \<or> h = md5_known []" for h unfolding cs by simp
  have a9: "disk ?s (path_join ''/data'' h) = None"
    if "h = ''d16fb36f0911f878998c136191af705e'' \<or> h = ''900150983cd24fb0d6963f7d28e17f72''" for h
    using that by (auto simp: path_join_def uploaded_session_def)
  have a10: "\<forall>c \<in> set ?cs. \<exists>tp. temp_path c = Some tp \<and> tp \<noteq> [] \<and> tp \<noteq> path_join ''/data'' h
                \<and> disk ?s tp \<noteq> None"
    if "h = ''d16fb36f0911f878998c136191af705e'' \<or> h = ''900150983cd24fb0d6963f7d28e17f72''" for h
    using that unfolding cs by (auto simp: path_join_def uploaded_session_def)
  have a11: "distinct (map temp_path ?cs)" unfolding cs by simp
  have content: "concat (map (chunk_bytes (disk ?s)) ?cs) = ''abc''"
    unfolding cs by (simp add: chunk_bytes_def uploaded_session_def)
  have dg: "md5_known ''abc'' = ''900150983cd24fb0d6963f7d28e17f72''"
    by (simp add: md5_known_def)
  obtain s' r where m1: "merge_chunks md5_known ?s 7 ''u2'' ''a.txt''
          ''d16fb36f0911f878998c136191af705e'' 0 None False (Some ''/data'') = (s', r)"
    by (cases "merge_chunks md5_known ?s 7 ''u2'' ''a.txt''
          ''d16fb36f0911f878998c136191af705e'' 0 None False (Some ''/data'')")
  obtain s'' r' where m2: "merge_chunks md5_known ?s 7 ''u2'' ''a.txt''
          ''900150983cd24fb0d6963f7d28e17f72'' 0 None False (Some ''/data'') = (s'', r')"
    by (cases "merge_chunks md5_known ?s 7 ''u2'' ''a.txt''
          ''900150983cd24fb0d6963f7d28e17f72'' 0 None False (Some ''/data'')")
  from merge_integrity_check[OF a1 a2 a3 a4 refl a6 a7 refl a9 a10 a11 refl m1]
  have r1: "r = Inl HashMismatch"
    "disk s' (path_join ''/data'' ''d16fb36f0911f878998c136191af705e'') = None"
    "stores s' = stores ?s"
    by (simp_all add: content dg)
  from merge_integrity_check[OF a1 a2 a3 a4 refl a6 a7 refl a9 a10 a11 refl m2]
  have r2: "r' \<noteq> Inl HashMismatch"
    by (simp add: content dg)
  from r1 r2 show ?thesis
    unfolding m1 m2 by (simp add: path_join_def uploaded_session_def)
qed

text \<open>
  The check is skipped when a file already stands at the output path of the claimed hash:
  the chunk files are thrown away unread and the merge succeeds, although the digest of the
  uploaded bytes is not the claimed hash.
\<close>

lemma merge_accepts_standing_file:
  "md5_known (concat (map (chunk_bytes (disk stored_blob_session))
                        (get_all_chunks stored_blob_session ''u3'')))
     \<noteq> ''900150983cd24fb0d6963f7d28e17f72''
   \<and> snd (merge_chunks md5_known stored_blob_session 7 ''u3'' ''a.txt''
            ''900150983cd24fb0d6963f7d28e17f72'' 0 None False (Some ''/data''))
     = Inr \<lparr>meta_id = 2, user_id = 7, parent_id = 0, file_name = ''a.txt'', is_folder = False,
            file_hash = Some ''900150983cd24fb0d6963f7d28e17f72'', is_deleted = False,
            deleted_at = None\<rparr>
   \<and> stores (fst (merge_chunks md5_known stored_blob_session 7 ''u3'' ''a.txt''
            ''900150983cd24fb0d6963f7d28e17f72'' 0 None False (Some ''/data'')))
     = [\<lparr>store_hash = ''900150983cd24fb0d6963f7d28e17f72'',
         real_path = ''/data/900150983cd24fb0d6963f7d28e17f72'', file_size = 3, ref_count = 2\<rparr>]"
  by (auto simp: merge_eval stored_blob_session_def chunk_bytes_def)

text \<open>
  Claim C2 does not hold of the code.  A session of one chunk holds the bytes \<open>xyz\<close> and
  the client claims the hash of \<open>abc\<close>.  The first merge hashes the chunk, fails with the
  integrity error and removes the output, as claimed; the chunk file is consumed and the
  chunk row stays marked uploaded.  The same request again opens the output for writing,
  finds the chunk file gone and raises from inside the \<^verbatim>\<open>with\<close> block, which leaves an
  empty file at the output path.  The same request a third time finds a file at the output
  path, recomputes nothing, and commits: a file row and a blob record of size 0 under the
  claimed hash, for an output whose digest is not that hash.  A later plain upload of the
  real bytes \<open>abc\<close> then only raises the reference count of that record, and the stored
  file stays empty.
\<close>

theorem merge_retry_commits_unverified:
  "snd (merge_u4 mismatched_session) = Inl HashMismatch
   \<and> disk (fst (merge_u4 mismatched_session)) ''/data/900150983cd24fb0d6963f7d28e17f72'' = None
   \<and> disk (fst (merge_u4 mismatched_session)) ''/tmp/u4_0'' = None
   \<and> chunks (fst (merge_u4 mismatched_session)) = chunks mismatched_session
   \<and> snd (merge_u4 (fst (merge_u4 mismatched_session))) = Inl (TempMissing 0)
   \<and> disk (fst (merge_u4 (fst (merge_u4 mismatched_session))))
        ''/data/900150983cd24fb0d6963f7d28e17f72'' = Some []
   \<and> snd (merge_u4 (fst (merge_u4 (fst (merge_u4 mismatched_session)))))
       = Inr \<lparr>meta_id = 1, user_id = 7, parent_id = 0, file_name = ''a.txt'', is_folder = False,
              file_hash = Some ''900150983cd24fb0d6963f7d28e17f72'', is_deleted = False,
              deleted_at = None\<rparr>
   \<and> stores (fst (merge_u4 (fst (merge_u4 (fst (merge_u4 mismatched_session))))))
       = [\<lparr>store_hash = ''900150983cd24fb0d6963f7d28e17f72'',
           real_path = ''/data/900150983cd24fb0d6963f7d28e17f72'', file_size = 0,
           ref_count = 1\<rparr>]
   \<and> stores (fst (upload_abc (fst (merge_u4 (fst (merge_u4 (fst (merge_u4 mismatched_session))))))))
       = [\<lparr>store_hash = ''900150983cd24fb0d6963f7d28e17f72'',
           real_path = ''/data/900150983cd24fb0d6963f7d28e17f72'', file_size = 0,
           ref_count = 2\<rparr>]
   \<and> disk (fst (upload_abc (fst (merge_u4 (fst (merge_u4 (fst (merge_u4 mismatched_session))))))))
        ''/data/900150983cd24fb0d6963f7d28e17f72'' = Some []"
  by code_simp


section \<open>One record per content, one reference per node\<close>

lemma outcome_failed:
  "stores s' = stores s \<Longrightarrow> metas s' = metas s @ new \<Longrightarrow> \<forall>n \<in> set new. file_hash n = None
   \<Longrightarrow> outcome s s' (Inl e) hr"
  by (auto simp: outcome_def)

lemma records_of_get_by_hash:
  "get_by_hash s h = None \<longleftrightarrow> records_of s h = []"
  by (auto simp: get_by_hash_def records_of_def find_None_iff filter_empty_conv)

lemma stores_increment:
  "stores (fst (increment_ref_count s h)) =
     map (\<lambda>r. if store_hash r = h then r\<lparr>ref_count := ref_count r + 1\<rparr> else r) (stores s)"
  by (simp add: increment_ref_count_def Let_def)

text \<open>The common end of the three endpoints: the blob, then the row.\<close>

lemma outcome_committed:
  assumes pre: "stores s2 = stores s" "metas s2 = metas s @ new" "\<forall>n \<in> set new. file_hash n = None"
      and s3: "s3 = (case get_by_hash s2 hr of
                       Some existing_store \<Rightarrow> fst (increment_ref_count s2 hr)
                     | None \<Rightarrow> fst (create_file_store s2 hr path fsize))"
      and cn: "commit_node s3 cu final_filename tp hr fsize2 = (s4, m)"
      and fin: "stores s' = stores s4" "metas s' = metas s4"
  shows "outcome s s' (Inr (Some m)) hr"
proof -
  note ce = commit_node_effect[OF cn]
  have m3: "metas s3 = metas s2"
    by (simp add: s3 increment_ref_count_frame create_file_store_frame split: option.splits)
  have ro: "records_of s2 hr = records_of s hr" using pre(1) by (simp add: records_of_def)
  have st: "records_of s hr \<noteq> []
               \<and> stores s3 = map (\<lambda>r. if store_hash r = hr then r\<lparr>ref_count := ref_count r + 1\<rparr>
                                       else r) (stores s)
             \<or> records_of s hr = []
               \<and> (\<exists>rec. stores s3 = stores s @ [rec] \<and> store_hash rec = hr \<and> ref_count rec = 1)"
  proof (cases "get_by_hash s2 hr")
    case None
    then have "records_of s hr = []" using ro by (simp add: records_of_get_by_hash)
    moreover have "stores s3 = stores s @ [\<lparr>store_hash = hr, real_path = path, file_size = fsize,
                                      ref_count = 1\<rparr>]"
      using None pre(1) by (simp add: s3 create_file_store_fresh[OF None])
    ultimately show ?thesis by simp
  next
    case (Some rec)
    then have "records_of s hr \<noteq> []"
      using ro records_of_get_by_hash[of s2 hr] by simp
    moreover have "stores s3 = map (\<lambda>r. if store_hash r = hr
          then r\<lparr>ref_count := ref_count r + 1\<rparr> else r) (stores s)"
      using Some pre(1) by (simp add: s3 stores_increment)
    ultimately show ?thesis by simp
  qed
  have "metas s' = metas s @ new @ [m]"
    using fin(2) ce(1) m3 pre(2) by simp
  then show ?thesis
    using st ce(2,9) fin(1) pre(3) by (auto simp: outcome_def)
qed

lemma upload_file_outcome:
  assumes "upload_file digest s cu filename content p rp ar tmp storage = (s', r)"
  shows "outcome s s' (case r of Inl e \<Rightarrow> Inl e | Inr m \<Rightarrow> Inr (Some m)) (digest content)"
proof (cases "users s cu")
  case None
  with assms have "s' = s" "r = Inl Unauthenticated" by (auto simp: upload_file_def)
  then show ?thesis by (simp add: outcome_def)
next
  case (Some current_user)
  show ?thesis
  proof (cases "is_filename_valid filename")
    case False
    with Some assms have "s' = s" "r = Inl InvalidName" by (auto simp: upload_file_def)
    then show ?thesis by (simp add: outcome_def)
  next
    case valid: True
    obtain s1 tp where t: "target_parent s cu p rp = (s1, tp)"
      by (cases "target_parent s cu p rp")
    from target_parent_effect[OF t] obtain new where
      eff: "stores s1 = stores s" "metas s1 = metas s @ new" "\<forall>n \<in> set new. file_hash n = None"
      by auto
    show ?thesis
    proof (cases "final_name s1 cu filename tp ar")
      case (Inl e)
      with Some valid t assms have "s' = s1" "r = Inl e" by (auto simp: upload_file_def)
      then show ?thesis using eff by (auto intro: outcome_failed)
    next
      case (Inr final_filename)
      let ?s2 = "s1\<lparr>disk := (disk s1)(tmp \<mapsto> content)\<rparr>"
      let ?h = "digest content"
      let ?sz = "int (length content)"
      show ?thesis
      proof (cases "quota_used current_user + ?sz > quota_total current_user")
        case True
        with Some valid t Inr assms have "s' = ?s2\<lparr>disk := (disk ?s2)(tmp := None)\<rparr>"
          "r = Inl QuotaExceeded"
          by (auto simp: upload_file_def Let_def)
        then show ?thesis using eff by (auto intro: outcome_failed)
      next
        case fits: False
        show ?thesis
        proof (cases "get_by_hash ?s2 ?h")
          case known: (Some existing_store)
          let ?s3 = "fst (increment_ref_count ?s2 ?h)"
          let ?s4 = "?s3\<lparr>disk := (disk ?s3)(tmp := None)\<rparr>"
          obtain s5 m where cn: "commit_node ?s4 cu final_filename tp ?h ?sz = (s5, m)"
            by (cases "commit_node ?s4 cu final_filename tp ?h ?sz")
          from Some valid t Inr fits known cn assms have res: "s' = s5" "r = Inr m"
            by (auto simp: upload_file_def Let_def)
          have a: "stores ?s2 = stores s" "metas ?s2 = metas s @ new" using eff by simp_all
          have s4: "?s4 = (case get_by_hash ?s2 ?h of
                       Some existing_store \<Rightarrow> fst (increment_ref_count ?s2 ?h)
                     | None \<Rightarrow> fst (create_file_store ?s2 ?h [] 0))\<lparr>disk := (disk ?s3)(tmp := None)\<rparr>"
            using known by simp
          note ce = commit_node_effect[OF cn]
          have "outcome s s' (Inr (Some m)) ?h"
          proof -
            have ro: "records_of s ?h \<noteq> []"
              using known records_of_get_by_hash[of ?s2 ?h] eff(1) by (simp add: records_of_def)
            have "stores s' = map (\<lambda>r. if store_hash r = ?h
                  then r\<lparr>ref_count := ref_count r + 1\<rparr> else r) (stores s)"
              using res(1) ce(9) eff(1) by (simp add: stores_increment)
            moreover have "metas s' = metas s @ new @ [m]"
              using res(1) ce(1) eff(2) by (simp add: increment_ref_count_frame)
            ultimately show ?thesis using ro ce(2) eff(3) by (auto simp: outcome_def)
          qed
          then show ?thesis using res by simp
        next
          case fresh: None
          show ?thesis
          proof (cases storage)
            case None
            with Some valid t Inr fits fresh assms have "s' = ?s2" "r = Inl NoStorage"
              by (auto simp: upload_file_def Let_def)
            then show ?thesis using eff by (auto intro: outcome_failed)
          next
            case (Some storage_base_path)
            let ?fp = "path_join storage_base_path ?h"
            let ?s3 = "(if disk ?s2 ?fp = None
                          then ?s2\<lparr>disk := ((disk ?s2)(tmp := None))(?fp \<mapsto> content)\<rparr>
                          else ?s2\<lparr>disk := (disk ?s2)(tmp := None)\<rparr>)"
            let ?s4 = "fst (create_file_store ?s3 ?h ?fp ?sz)"
            obtain s5 m where cn: "commit_node ?s4 cu final_filename tp ?h ?sz = (s5, m)"
              by (cases "commit_node ?s4 cu final_filename tp ?h ?sz")
            from \<open>users s cu = Some current_user\<close> valid t Inr fits fresh Some cn assms
            have res: "s' = s5" "r = Inr m"
              by (auto simp: upload_file_def Let_def)
            define s3 where "s3 = ?s3"
            have a: "stores s3 = stores s" "metas s3 = metas s @ new"
              using eff by (simp_all add: s3_def)
            have g3: "get_by_hash s3 ?h = None"
              using fresh by (simp add: get_by_hash_def s3_def)
            have cn': "commit_node (fst (create_file_store s3 ?h ?fp ?sz)) cu final_filename tp ?h ?sz
                         = (s5, m)"
              using cn by (simp only: s3_def)
            have "outcome s s' (Inr (Some m)) ?h"
              by (rule outcome_committed[where ?s2.0 = s3, OF a eff(3) _ cn'])
                 (simp_all add: g3 res)
            then show ?thesis using res by simp
          qed
        qed
      qed
    qed
  qed
qed


lemma check_fast_upload_outcome:
  assumes "check_fast_upload s cu h fname p rp ar = (s', r)"
  shows "outcome s s' r h"
proof (cases "users s cu")
  case None
  with assms have "s' = s" "r = Inl Unauthenticated" by (auto simp: check_fast_upload_def)
  then show ?thesis by (simp add: outcome_def)
next
  case (Some current_user)
  show ?thesis
  proof (cases "is_filename_valid fname")
    case False
    with Some assms have "s' = s" "r = Inl InvalidName" by (auto simp: check_fast_upload_def)
    then show ?thesis by (simp add: outcome_def)
  next
    case valid: True
    obtain s1 tp where t: "target_parent s cu p rp = (s1, tp)"
      by (cases "target_parent s cu p rp")
    from target_parent_effect[OF t] obtain new where
      eff: "stores s1 = stores s" "metas s1 = metas s @ new" "\<forall>n \<in> set new. file_hash n = None"
      by auto
    show ?thesis
    proof (cases "final_name s1 cu fname tp ar")
      case (Inl e)
      with Some valid t assms have "s' = s1" "r = Inl e" by (auto simp: check_fast_upload_def)
      then show ?thesis using eff by (auto intro: outcome_failed)
    next
      case (Inr final_filename)
      show ?thesis
      proof (cases "get_by_hash s1 h")
        case None
        with Some valid t Inr assms have "s' = s1" "r = Inr None"
          by (auto simp: check_fast_upload_def)
        then show ?thesis using eff by (auto simp: outcome_def)
      next
        case known: (Some existing_store)
        show ?thesis
        proof (cases "quota_used current_user + file_size existing_store > quota_total current_user")
          case True
          with Some valid t Inr known assms have "s' = s1" "r = Inl QuotaExceeded"
            by (auto simp: check_fast_upload_def)
          then show ?thesis using eff by (auto intro: outcome_failed)
        next
          case False
          obtain s3 m where cn: "commit_node (fst (increment_ref_count s1 h)) cu final_filename tp h
                                   (file_size existing_store) = (s3, m)"
            by (cases "commit_node (fst (increment_ref_count s1 h)) cu final_filename tp h
                                   (file_size existing_store)")
          from Some valid t Inr known False cn assms have res: "s' = s3" "r = Inr (Some m)"
            by (auto simp: check_fast_upload_def Let_def)
          have "outcome s s' (Inr (Some m)) h"
            by (rule outcome_committed[OF eff _ cn]) (simp_all add: known res)
          then show ?thesis using res by simp
        qed
      qed
    qed
  qed
qed

lemma merge_chunks_outcome:
  assumes "merge_chunks digest s cu upl fname h p rp ar storage = (s', r)"
  shows "outcome s s' (case r of Inl e \<Rightarrow> Inl e | Inr m \<Rightarrow> Inr (Some m)) h"
proof (cases "users s cu")
  case None
  with assms have "s' = s" "r = Inl Unauthenticated" by (auto simp: merge_chunks_def)
  then show ?thesis by (simp add: outcome_def)
next
  case (Some current_user)
  show ?thesis
  proof (cases "is_filename_valid fname")
    case False
    with Some assms have "s' = s" "r = Inl InvalidName" by (auto simp: merge_chunks_def)
    then show ?thesis by (simp add: outcome_def)
  next
    case valid: True
    obtain s1 tp where t: "target_parent s cu p rp = (s1, tp)"
      by (cases "target_parent s cu p rp")
    from target_parent_effect[OF t] obtain new where
      eff: "stores s1 = stores s" "metas s1 = metas s @ new" "\<forall>n \<in> set new. file_hash n = None"
      by auto
    show ?thesis
    proof (cases "final_name s1 cu fname tp ar")
      case (Inl e)
      with Some valid t assms have "s' = s1" "r = Inl e" by (auto simp: merge_chunks_def)
      then show ?thesis using eff by (auto intro: outcome_failed)
    next
      case (Inr final_filename)
      let ?cs = "get_all_chunks s1 upl"
      show ?thesis
      proof (cases "?cs = [] \<and> h \<noteq> digest []")
        case True
        with Some valid t Inr assms have "s' = s1" "r = Inl SessionNotFound"
          by (auto simp: merge_chunks_def)
        then show ?thesis using eff by (auto intro: outcome_failed)
      next
        case session: False
        show ?thesis
        proof (cases "find (\<lambda>c. \<not> is_uploaded c) ?cs")
          case (Some c)
          with \<open>users s cu = Some current_user\<close> valid t Inr session assms
          have "s' = s1" "r = Inl (ChunkMissing (chunk_index c))"
            by (auto simp: merge_chunks_def Let_def)
          then show ?thesis using eff by (auto intro: outcome_failed)
        next
          case complete: None
          show ?thesis
          proof (cases storage)
            case None
            with \<open>users s cu = Some current_user\<close> valid t Inr session complete assms
            have "s' = s1" "r = Inl NoStorage"
              by (auto simp: merge_chunks_def Let_def)
            then show ?thesis using eff by (auto intro: outcome_failed)
          next
            case (Some storage_base_path)
            let ?fp = "path_join storage_base_path h"
            let ?A = "(if disk s1 ?fp = None then
              (case write_chunks ?cs ((disk s1)(?fp \<mapsto> [])) ?fp [] of
                 (d, Inl e) \<Rightarrow> (s1\<lparr>disk := d\<rparr>, Inl e)
               | (d, Inr hashed) \<Rightarrow>
                   if digest hashed \<noteq> h then (s1\<lparr>disk := d(?fp := None)\<rparr>, Inl HashMismatch)
                   else (s1\<lparr>disk := d\<rparr>, Inr ()))
            else (s1\<lparr>disk := discard_chunks ?cs (disk s1)\<rparr>, Inr ()))"
            obtain s2 ra where A: "?A = (s2, ra)" by (cases ?A)
            have s2: "stores s2 = stores s" "metas s2 = metas s @ new"
              using A eff by (auto split: if_splits prod.splits sum.splits)
            show ?thesis
            proof (cases ra)
              case (Inl e)
              with \<open>users s cu = Some current_user\<close> valid t Inr session complete Some A assms
              have "s' = s2" "r = Inl e"
                by (auto simp: merge_chunks_def Let_def)
              then show ?thesis using s2 eff(3) by (auto intro: outcome_failed)
            next
              case assembled: (Inr u)
              let ?sz = "(case disk s2 ?fp of None \<Rightarrow> 0 | Some w \<Rightarrow> int (length w))"
              show ?thesis
              proof (cases "quota_used current_user + ?sz > quota_total current_user")
                case True
                with \<open>users s cu = Some current_user\<close> valid t Inr session complete Some A
                  assembled assms
                have "r = Inl QuotaExceeded"
                  "s' = (if get_by_hash s2 h = None then s2\<lparr>disk := (disk s2)(?fp := None)\<rparr>
                         else s2)"
                  by (auto simp: merge_chunks_def Let_def)
                then show ?thesis using s2 eff(3) by (auto intro: outcome_failed)
              next
                case fits: False
                define s3 where "s3 = (case get_by_hash s2 h of
                       Some existing_store \<Rightarrow> fst (increment_ref_count s2 h)
                     | None \<Rightarrow> fst (create_file_store s2 h ?fp ?sz))"
                obtain s4 m where cn: "commit_node s3 cu final_filename tp h ?sz = (s4, m)"
                  by (cases "commit_node s3 cu final_filename tp h ?sz")
                from \<open>users s cu = Some current_user\<close> valid t Inr session complete Some A
                  assembled fits cn assms
                have res: "s' = delete_chunks s4 upl" "r = Inr m"
                  by (auto simp: merge_chunks_def Let_def s3_def)
                have "outcome s s' (Inr (Some m)) h"
                  by (rule outcome_committed[OF s2 eff(3) s3_def cn])
                     (simp_all add: res delete_chunks_def)
                then show ?thesis using res by simp
              qed
            qed
          qed
        qed
      qed
    qed
  qed
qed

lemma serve_outcome:
  assumes "serve digest s q = (s', r)"
  shows "outcome s s' r (request_hash digest q)"
proof (cases q)
  case (WholeFile cu filename content p rp ar tmp storage)
  obtain s1 r1 where u: "upload_file digest s cu filename content p rp ar tmp storage = (s1, r1)"
    by (cases "upload_file digest s cu filename content p rp ar tmp storage")
  from assms WholeFile u have "s' = s1" "r = (case r1 of Inl e \<Rightarrow> Inl e | Inr m \<Rightarrow> Inr (Some m))"
    by (auto split: sum.splits)
  with upload_file_outcome[OF u] WholeFile show ?thesis by simp
next
  case (MergeSession cu upl fname h p rp ar storage)
  obtain s1 r1 where u: "merge_chunks digest s cu upl fname h p rp ar storage = (s1, r1)"
    by (cases "merge_chunks digest s cu upl fname h p rp ar storage")
  from assms MergeSession u have "s' = s1" "r = (case r1 of Inl e \<Rightarrow> Inl e | Inr m \<Rightarrow> Inr (Some m))"
    by (auto split: sum.splits)
  with merge_chunks_outcome[OF u] MergeSession show ?thesis by simp
next
  case (FastUpload cu h fname p rp ar)
  with assms check_fast_upload_outcome[of s cu h fname p rp ar s' r] show ?thesis by simp
qed

lemma filter_hash_map_inc:
  "filter (\<lambda>r. store_hash r = h)
     (map (\<lambda>r. if store_hash r = hr then r\<lparr>ref_count := ref_count r + 1\<rparr> else r) xs)
   = (if h = hr then map (\<lambda>r. r\<lparr>ref_count := ref_count r + 1\<rparr>) (filter (\<lambda>r. store_hash r = h) xs)
      else filter (\<lambda>r. store_hash r = h) xs)"
  by (induction xs) auto

lemma accounted_step:
  assumes "accounted s h k" and "outcome s s' r hr"
  shows "accounted s' h (k + (if hr = h \<and> committed r then 1 else 0))"
proof (cases "committed r")
  case False
  then have "stores s' = stores s"
    and "\<exists>new. metas s' = metas s @ new \<and> (\<forall>n \<in> set new. file_hash n = None)"
    using assms(2) by (auto simp: outcome_def committed_def split: sum.splits option.splits)
  then have "records_of s' h = records_of s h" "nodes_of s' h = nodes_of s h"
    by (auto simp: records_of_def nodes_of_def)
  with assms(1) False show ?thesis by (simp add: accounted_def)
next
  case True
  then obtain m where r: "r = Inr (Some m)"
    by (auto simp: committed_def split: sum.splits option.splits)
  from assms(2) r obtain new where m: "file_hash m = Some hr"
    and ms: "metas s' = metas s @ new @ [m]" "\<forall>n \<in> set new. file_hash n = None"
    and st: "records_of s hr \<noteq> []
               \<and> stores s' = map (\<lambda>r. if store_hash r = hr then r\<lparr>ref_count := ref_count r + 1\<rparr>
                                       else r) (stores s)
             \<or> records_of s hr = []
               \<and> (\<exists>rec. stores s' = stores s @ [rec] \<and> store_hash rec = hr \<and> ref_count rec = 1)"
    by (auto simp: outcome_def)
  have fnew: "filter (\<lambda>n. file_hash n = Some h) new = []"
    using ms(2) by (auto simp: filter_empty_conv)
  show ?thesis
  proof (cases "hr = h")
    case False
    have "nodes_of s' h = nodes_of s h"
      using ms(1) m False fnew by (simp add: nodes_of_def)
    moreover have "records_of s' h = records_of s h"
      using st False by (auto simp: records_of_def filter_hash_map_inc)
    ultimately show ?thesis using assms(1) False by (simp add: accounted_def)
  next
    case same: True
    have n: "length (nodes_of s' h) = Suc k"
      using ms(1) m same fnew assms(1) by (simp add: nodes_of_def accounted_def)
    from st show ?thesis
    proof
      assume a: "records_of s hr \<noteq> []
               \<and> stores s' = map (\<lambda>r. if store_hash r = hr then r\<lparr>ref_count := ref_count r + 1\<rparr>
                                       else r) (stores s)"
      with assms(1) same obtain rec where k: "k \<noteq> 0" "records_of s h = [rec]" "ref_count rec = int k"
        by (auto simp: accounted_def split: if_splits)
      have "records_of s' h = [rec\<lparr>ref_count := ref_count rec + 1\<rparr>]"
        using a same k(2) by (simp add: records_of_def filter_hash_map_inc)
      then show ?thesis using n k True same by (simp add: accounted_def)
    next
      assume a: "records_of s hr = []
               \<and> (\<exists>rec. stores s' = stores s @ [rec] \<and> store_hash rec = hr \<and> ref_count rec = 1)"
      with assms(1) same have k: "k = 0" by (auto simp: accounted_def split: if_splits)
      from a same obtain rec where "records_of s' h = [rec]" "ref_count rec = 1"
        by (auto simp: records_of_def)
      then show ?thesis using n k True same by (simp add: accounted_def)
    qed
  qed
qed

lemma outcome_row:
  assumes "outcome s s' r hr"
  shows "set (metas s) \<subseteq> set (metas s')"
    and "r = Inr (Some m) \<Longrightarrow> file_hash m = Some hr \<and> m \<in> set (metas s')"
  using assms by (auto simp: outcome_def split: sum.splits option.splits)

lemma serve_all_accounted:
  "serve_all digest s qs = (s', rs) \<Longrightarrow> accounted s h k \<Longrightarrow>
     accounted s' h (k + commits digest h qs rs)
     \<and> set (metas s) \<subseteq> set (metas s')
     \<and> length rs = length qs
     \<and> (\<forall>(q, r) \<in> set (zip qs rs). \<forall>m. r = Inr (Some m) \<longrightarrow>
           file_hash m = Some (request_hash digest q) \<and> m \<in> set (metas s'))"
proof (induction qs arbitrary: s k rs s')
  case Nil
  then show ?case by (simp add: commits_def)
next
  case (Cons q qs)
  obtain s1 r where q: "serve digest s q = (s1, r)" by (cases "serve digest s q")
  obtain s2 rs' where rest: "serve_all digest s1 qs = (s2, rs')"
    by (cases "serve_all digest s1 qs")
  from Cons.prems(1) q rest have res: "s' = s2" "rs = r # rs'" by auto
  note oc = serve_outcome[OF q]
  let ?k1 = "k + (if request_hash digest q = h \<and> committed r then 1 else 0)"
  from accounted_step[OF Cons.prems(2) oc] have a1: "accounted s1 h ?k1" .
  from Cons.IH[OF rest a1] have ih: "accounted s2 h (?k1 + commits digest h qs rs')"
    "set (metas s1) \<subseteq> set (metas s2)" "length rs' = length qs"
    "\<forall>(q, r) \<in> set (zip qs rs'). \<forall>m. r = Inr (Some m) \<longrightarrow>
           file_hash m = Some (request_hash digest q) \<and> m \<in> set (metas s2)"
    by auto
  have c: "commits digest h (q # qs) (r # rs')
        = (if request_hash digest q = h \<and> committed r then 1 else 0) + commits digest h qs rs'"
    by (simp add: commits_def)
  have first: "\<forall>m. r = Inr (Some m) \<longrightarrow>
           file_hash m = Some (request_hash digest q) \<and> m \<in> set (metas s2)"
    using outcome_row(2)[OF oc] ih(2) by auto
  show ?case
    unfolding res c
    using ih first outcome_row(1)[OF oc] by (auto simp: add.assoc)
qed

text \<open>
  Claim C1.  Start where a hash has no blob record and no row refers to it, and serve any
  list of upload requests (whole-file uploads, merges and fast uploads, in any mix) one
  after the other.  Let \<open>N\<close> be the number of requests that committed under the hash.
  Then exactly \<open>N\<close> rows refer to the hash; for positive \<open>N\<close> there is exactly one
  blob record of the hash and its count is \<open>N\<close>, and for \<open>N = 0\<close> there is none.
  Every request that committed made a row, present in the final namespace, whose hash is
  the one the request commits under (the digest of the content for a whole-file upload).
\<close>

theorem dedup_ref_count_equals_commits:
  assumes "records_of s h = []"
      and "nodes_of s h = []"
      and "serve_all digest s qs = (s', rs)"
      and "N = commits digest h qs rs"
  shows "length (nodes_of s' h) = N
       \<and> (if N = 0 then records_of s' h = []
          else (\<exists>rec. records_of s' h = [rec] \<and> ref_count rec = int N))
       \<and> (\<forall>(q, r) \<in> set (zip qs rs). \<forall>m. r = Inr (Some m) \<longrightarrow>
             file_hash m = Some (request_hash digest q) \<and> m \<in> set (metas s'))"
proof -
  have "accounted s h 0" using assms(1,2) by (simp add: accounted_def)
  from serve_all_accounted[OF assms(3) this] show ?thesis
    unfolding assms(4) by (simp add: accounted_def)
qed

theorem dedup_ref_count_equals_commits_witness:
  "commits md5_known ''900150983cd24fb0d6963f7d28e17f72'' three_ways
       (snd (serve_all md5_known uploaded_session three_ways)) = 3
   \<and> length (nodes_of (fst (serve_all md5_known uploaded_session three_ways))
               ''900150983cd24fb0d6963f7d28e17f72'') = 3
   \<and> (\<exists>rec. records_of (fst (serve_all md5_known uploaded_session three_ways))
               ''900150983cd24fb0d6963f7d28e17f72'' = [rec] \<and> ref_count rec = 3)"
proof -
  let ?h = "''900150983cd24fb0d6963f7d28e17f72''"
  have c: "commits md5_known ?h three_ways
       (snd (serve_all md5_known uploaded_session three_ways)) = 3"
    by code_simp
  have r0: "records_of uploaded_session ?h = []"
    by (simp add: records_of_def uploaded_session_def)
  have n0: "nodes_of uploaded_session ?h = []"
    by (simp add: nodes_of_def uploaded_session_def)
  have run: "serve_all md5_known uploaded_session three_ways =
      (fst (serve_all md5_known uploaded_session three_ways),
       snd (serve_all md5_known uploaded_session three_ways))"
    by simp
  from dedup_ref_count_equals_commits[OF r0 n0 run refl] c show ?thesis
    by simp
qed

section \<open>Permanent deletion and the quota\<close>

text \<open>
  Claim C6 at a folder that is not in the trash.  \<^verbatim>\<open>permanent_delete_file\<close> measures the
  folder with \<^verbatim>\<open>get_trash_files\<close>, which lists soft-deleted children only, and then
  \<^verbatim>\<open>permanent_remove\<close> purges every child.  Here the folder and its file of 10 bytes are
  purged, the blob record and the physical file are gone, and the owner's used quota is
  still 10.
\<close>

theorem permanent_delete_keeps_quota:
  "metas (fst (permanent_delete_file 5 1000 folder_with_file 7 1)) = []
   \<and> stores (fst (permanent_delete_file 5 1000 folder_with_file 7 1)) = []
   \<and> disk (fst (permanent_delete_file 5 1000 folder_with_file 7 1)) ''/data/h10'' = None
   \<and> users (fst (permanent_delete_file 5 1000 folder_with_file 7 1)) 7
       = Some \<lparr>quota_total = 100, quota_used = 10\<rparr>
   \<and> node_file_size folder_with_file (metas folder_with_file ! 1) = 10"
  by code_simp

section \<open>Free names\<close>

lemma like_percent_any: "like ps s \<Longrightarrow> like (CHR ''%'' # ps) (m @ s)"
  by (induction m) simp_all

lemma like_self_append: "like q t \<Longrightarrow> like (p @ q) (p @ t)"
  by (induction p) simp_all

lemma like_self: "like p p"
  using like_self_append[of "[]" "[]" p] by simp

lemma like_pattern_matches: "like (stem @ ''%'' @ ext) (stem @ m @ ext)"
  using like_self_append[OF like_percent_any[OF like_self], of stem ext m] by simp

lemma rsplit_dot_join:
  assumes "CHR ''.'' \<in> set n"
  shows "fst (rsplit_dot n) @ CHR ''.'' # snd (rsplit_dot n) = n"
proof -
  let ?p = "\<lambda>c. c \<noteq> CHR ''.''"
  from assms have "dropWhile ?p (rev n) \<noteq> []" by (simp add: dropWhile_eq_Nil_conv)
  then obtain x xs where dx: "dropWhile ?p (rev n) = x # xs"
    by (cases "dropWhile ?p (rev n)") auto
  then have "x = CHR ''.''" using hd_dropWhile[of ?p "rev n"] by auto
  with dx have "rev n = takeWhile ?p (rev n) @ CHR ''.'' # xs"
    by (metis takeWhile_dropWhile_id)
  then have "n = rev (takeWhile ?p (rev n) @ CHR ''.'' # xs)" by (metis rev_rev_ident)
  then show ?thesis using dx by (simp add: rsplit_dot_def)
qed

lemma split_name_join: "split_name n = (a, b) \<Longrightarrow> a @ b = n"
  using rsplit_dot_join[of n]
  by (auto simp: split_name_def split: if_splits prod.splits)

lemma probe_fresh: "probe ex stem ext c \<notin> set ex"
  by (induction ex stem ext c rule: probe.induct) (subst probe.simps, auto)

lemma probe_numbered: "\<exists>k. probe ex stem ext c = numbered stem k ext"
  by (induction ex stem ext c rule: probe.induct) (subst probe.simps, auto)

lemma get_unique_filename_crud_free:
  assumes "n \<in> set (metas s)" "user_id n = u" "parent_id n = p" "\<not> is_deleted n"
  shows "file_name n \<noteq> get_unique_filename_crud s u p fname"
proof
  assume eq: "file_name n = get_unique_filename_crud s u p fname"
  obtain stem ext where sp: "split_name fname = (stem, ext)" by (cases "split_name fname")
  let ?ex = "map file_name
                   (filter (\<lambda>n. user_id n = u \<and> parent_id n = p
                               \<and> like (stem @ ''%'' @ ext) (file_name n)
                               \<and> \<not> is_deleted n) (metas s))"
  have res: "get_unique_filename_crud s u p fname
               = (if fname \<notin> set ?ex then fname else probe ?ex stem ext 1)"
    using sp by (simp add: get_unique_filename_crud_def Let_def)
  have notin: "get_unique_filename_crud s u p fname \<notin> set ?ex"
    unfolding res using probe_fresh[of ?ex stem ext 1] by (simp del: set_map)
  have "\<exists>m. get_unique_filename_crud s u p fname = stem @ m @ ext"
  proof (cases "fname \<notin> set ?ex")
    case True
    then have "get_unique_filename_crud s u p fname = stem @ [] @ ext"
      using res split_name_join[OF sp] by simp
    then show ?thesis by blast
  next
    case False
    then have "get_unique_filename_crud s u p fname = probe ?ex stem ext 1" using res by simp
    with probe_numbered[of ?ex stem ext 1] show ?thesis
      by (auto simp: numbered_def)
  qed
  then obtain m where "file_name n = stem @ m @ ext" using eq by auto
  then have "like (stem @ ''%'' @ ext) (file_name n)"
    using like_pattern_matches[of stem ext m] by simp
  with assms have "file_name n \<in> set ?ex" by auto
  with notin eq show False by simp
qed

lemma insert_meta_effect:
  assumes "insert_meta s u p name folder h = (s', n)"
  shows "metas s' = metas s @ [n]" "next_id s' = next_id s + 1" "meta_id n = next_id s"
    "user_id n = u" "parent_id n = p" "file_name n = name" "is_folder n = folder"
    "file_hash n = h" "\<not> is_deleted n" "deleted_at n = None"
    "stores s' = stores s" "disk s' = disk s" "chunks s' = chunks s" "users s' = users s"
  using assms by (auto simp: insert_meta_def Let_def)

lemma keyed_insert:
  assumes "keyed s" and "insert_meta s u p name folder h = (s', n)"
  shows "keyed s'"
  using assms(1) insert_meta_effect(1,2,3)[OF assms(2)]
  by (auto simp: keyed_def list_all_iff)

lemma unique_names_insert:
  assumes "unique_names s"
      and "insert_meta s u p (get_unique_filename_crud s u p fname) folder h = (s', n)"
  shows "unique_names s'"
proof -
  note e = insert_meta_effect[OF assms(2)]
  have "(u, p, file_name n) \<notin> (\<lambda>n. (user_id n, parent_id n, file_name n)) `
           {x \<in> set (metas s). \<not> is_deleted x}"
  proof
    assume "(u, p, file_name n) \<in> (\<lambda>n. (user_id n, parent_id n, file_name n)) `
           {x \<in> set (metas s). \<not> is_deleted x}"
    then obtain x where x: "x \<in> set (metas s)" "\<not> is_deleted x" "user_id x = u"
      "parent_id x = p" "file_name x = file_name n" by auto
    from get_unique_filename_crud_free[OF x(1,3,4,2), of fname] x(5) e(6)
    show False by simp
  qed
  then show ?thesis
    using assms(1) e(1,4,5,9) by (simp add: unique_names_def)
qed

section \<open>Operations that keep names unique\<close>

lemma well_named_cong:
  "metas s' = metas s \<Longrightarrow> next_id s' = next_id s \<Longrightarrow> well_named s' = well_named s"
  by (simp add: well_named_def keyed_def unique_names_def)

lemma for_each_invariant:
  assumes "\<And>x st. P st \<Longrightarrow> P (fst (f x st))" and "P s"
  shows "P (fst (for_each f xs s))"
  using assms(2)
proof (induction xs arbitrary: s)
  case Nil
  then show ?case by simp
next
  case (Cons x xs)
  obtain s1 r where fx: "f x s = (s1, r)" by (cases "f x s")
  have p1: "P s1" using assms(1)[OF Cons.prems, of x] fx by simp
  show ?case
  proof (cases r)
    case (Inl e)
    with fx p1 show ?thesis by simp
  next
    case (Inr v)
    with fx Cons.IH[OF p1] show ?thesis by simp
  qed
qed

lemma well_named_insert:
  assumes "well_named s"
      and "insert_meta s u p (get_unique_filename_crud s u p fname) folder h = (s', n)"
  shows "well_named s'"
  using assms keyed_insert unique_names_insert by (auto simp: well_named_def)

lemma well_named_create_with_user:
  "well_named s \<Longrightarrow> well_named (fst (create_with_user s fname folder p h u))"
  using well_named_insert[of s u p fname folder h]
  by (cases "insert_meta s u p (get_unique_filename_crud s u p fname) folder h")
     (simp add: create_with_user_def)

lemma well_named_commit_node:
  assumes "well_named s"
  shows "well_named (fst (commit_node s cu fname p h fsize))"
proof -
  obtain s1 m where c: "create_with_user s fname False p (Some h) cu = (s1, m)"
    by (cases "create_with_user s fname False p (Some h) cu")
  have w1: "well_named s1"
    using well_named_create_with_user[OF assms, of fname False p "Some h" cu] c by simp
  have "metas (update_quota_used s1 cu fsize) = metas s1"
    "next_id (update_quota_used s1 cu fsize) = next_id s1"
    by (simp_all add: update_quota_used_def split: option.splits)
  from well_named_cong[OF this] w1 have "well_named (update_quota_used s1 cu fsize)" by simp
  then show ?thesis using c by (simp add: commit_node_def)
qed

lemma well_named_create_folder:
  "well_named s \<Longrightarrow> well_named (fst (create_folder s cu fname p))"
  using well_named_create_with_user[of s fname True p None cu]
  by (auto simp: create_folder_def split: option.splits prod.splits)

lemma distinct_map_filter_conj:
  "distinct (map g (filter P xs)) \<Longrightarrow> distinct (map g (filter (\<lambda>x. P x \<and> Q x) xs))"
  by (induction xs) (auto split: if_splits)

lemma active_after_mark:
  "filter (\<lambda>n. \<not> is_deleted n)
     (map (\<lambda>n. if meta_id n = i then n\<lparr>is_deleted := True, deleted_at := d\<rparr> else n) xs)
   = filter (\<lambda>n. \<not> is_deleted n \<and> meta_id n \<noteq> i) xs"
  by (induction xs) auto

lemma well_named_mark_deleted:
  assumes "well_named s"
  shows "well_named (s\<lparr>metas := map (\<lambda>n. if meta_id n = i
           then n\<lparr>is_deleted := True, deleted_at := d\<rparr> else n) (metas s)\<rparr>)"
proof -
  let ?f = "\<lambda>n. if meta_id n = i then n\<lparr>is_deleted := True, deleted_at := d\<rparr> else n"
  have ids: "map meta_id (map ?f xs) = map meta_id xs" for xs
    by (induction xs) auto
  have mem: "set (map ?f (metas s)) \<subseteq> {n. meta_id n < next_id s}"
    using assms by (auto simp: well_named_def keyed_def list_all_iff)
  have k: "keyed (s\<lparr>metas := map ?f (metas s)\<rparr>)"
    unfolding keyed_def list_all_iff
    using assms ids[of "metas s"] mem
    by (simp add: well_named_def keyed_def del: map_map) blast
  have "unique_names (s\<lparr>metas := map ?f (metas s)\<rparr>)"
    using assms
    by (simp add: well_named_def unique_names_def active_after_mark distinct_map_filter_conj)
  with k show ?thesis by (simp add: well_named_def)
qed

lemma well_named_remove_meta:
  "well_named s \<Longrightarrow> well_named (fst (remove_meta depth now s i u))"
proof (induction depth arbitrary: s i)
  case 0
  then show ?case by simp
next
  case (Suc depth)
  show ?case
  proof (cases "find_meta s i u")
    case None
    with Suc.prems show ?thesis by simp
  next
    case (Some obj)
    let ?loop = "(if is_folder obj
                 then for_each (\<lambda>child st. remove_meta depth now st (meta_id child) u)
                        (filter (\<lambda>c. parent_id c = i \<and> user_id c = u) (metas s)) s
                 else (s, Inr ()))"
    obtain s1 r where l: "?loop = (s1, r)" by (cases ?loop)
    have step: "well_named st \<Longrightarrow> well_named (fst (remove_meta depth now st (meta_id child) u))"
      for child :: file_meta and st using Suc.IH by blast
    have "well_named (fst (for_each (\<lambda>child st. remove_meta depth now st (meta_id child) u) cs s))"
      for cs :: "file_meta list"
      by (rule for_each_invariant[where P = well_named
            and f = "\<lambda>child st. remove_meta depth now st (meta_id child) u"])
         (use step Suc.prems in auto)
    then have "well_named (fst ?loop)" using Suc.prems by simp
    with l have w1: "well_named s1" by simp
    show ?thesis
    proof (cases r)
      case (Inl e)
      with Some l w1 show ?thesis by simp
    next
      case (Inr v)
      with Some l well_named_mark_deleted[OF w1, of i "Some now"] show ?thesis
        by (simp add: Let_def)
    qed
  qed
qed

lemma well_named_release_blob:
  "metas (release_blob s obj) = metas s" "next_id (release_blob s obj) = next_id s"
  by (auto simp: release_blob_def decrement_ref_count_def Let_def split: option.splits prod.splits)

lemma well_named_delete_row:
  assumes "well_named s"
  shows "well_named (s\<lparr>metas := filter (\<lambda>n. meta_id n \<noteq> i) (metas s)\<rparr>)"
proof -
  have "filter (\<lambda>n. \<not> is_deleted n) (filter (\<lambda>n. meta_id n \<noteq> i) xs)
      = filter (\<lambda>n. \<not> is_deleted n \<and> meta_id n \<noteq> i) xs" for xs :: "file_meta list"
    by (induction xs) auto
  then have "unique_names (s\<lparr>metas := filter (\<lambda>n. meta_id n \<noteq> i) (metas s)\<rparr>)"
    using assms by (simp add: well_named_def unique_names_def distinct_map_filter_conj)
  moreover have "keyed (s\<lparr>metas := filter (\<lambda>n. meta_id n \<noteq> i) (metas s)\<rparr>)"
    using assms by (simp add: well_named_def keyed_def distinct_map_filter list_all_iff)
  ultimately show ?thesis by (simp add: well_named_def)
qed

lemma well_named_permanent_remove:
  "well_named s \<Longrightarrow> well_named (fst (permanent_remove depth s i u))"
proof (induction depth arbitrary: s i)
  case 0
  then show ?case by simp
next
  case (Suc depth)
  show ?case
  proof (cases "find_meta s i u")
    case None
    with Suc.prems show ?thesis by simp
  next
    case (Some obj)
    let ?loop = "(if is_folder obj
                 then for_each (\<lambda>child st. permanent_remove depth st (meta_id child) u)
                        (filter (\<lambda>c. parent_id c = i \<and> user_id c = u) (metas s)) s
                 else (release_blob s obj, Inr ()))"
    obtain s1 r where l: "?loop = (s1, r)" by (cases ?loop)
    have step: "well_named st \<Longrightarrow> well_named (fst (permanent_remove depth st (meta_id child) u))"
      for child :: file_meta and st using Suc.IH by blast
    have "well_named (fst (for_each (\<lambda>child st. permanent_remove depth st (meta_id child) u) cs s))"
      for cs :: "file_meta list"
      by (rule for_each_invariant[where P = well_named
            and f = "\<lambda>child st. permanent_remove depth st (meta_id child) u"])
         (use step Suc.prems in auto)
    then have "well_named (fst ?loop)"
      using Suc.prems by (simp add: well_named_cong[OF well_named_release_blob])
    with l have w1: "well_named s1" by simp
    show ?thesis
    proof (cases r)
      case (Inl e)
      with Some l w1 show ?thesis by simp
    next
      case (Inr v)
      with Some l well_named_delete_row[OF w1, of i] show ?thesis by simp
    qed
  qed
qed

lemma well_named_copy_walk:
  "well_named (fst st) \<Longrightarrow> well_named (fst (fst (copy_walk depth st i tgt u)))"
proof (induction depth arbitrary: st i tgt)
  case 0
  then show ?case by simp
next
  case (Suc depth)
  show ?case
  proof (cases "find_meta (fst st) i u")
    case None
    with Suc.prems show ?thesis by simp
  next
    case (Some obj)
    obtain s1 new_obj where ins: "insert_meta (fst st) u tgt
                  (get_unique_filename_crud (fst st) u tgt (file_name obj))
                  (is_folder obj) (file_hash obj) = (s1, new_obj)"
      by (cases "insert_meta (fst st) u tgt
                  (get_unique_filename_crud (fst st) u tgt (file_name obj))
                  (is_folder obj) (file_hash obj)")
    have w1: "well_named s1" using well_named_insert[OF Suc.prems ins] .
    show ?thesis
    proof (cases "is_folder obj")
      case False
      have "well_named (fst (increment_ref_count s1 h))" for h
        using w1 well_named_cong[of "fst (increment_ref_count s1 h)" s1]
        by (simp add: increment_ref_count_frame)
      with Some ins False w1 show ?thesis
        by (simp add: Let_def split: option.splits)
    next
      case True
      have step: "well_named (fst st') \<Longrightarrow>
                  well_named (fst (fst (copy_walk depth st' (meta_id child) (meta_id new_obj) u)))"
        for child :: file_meta and st' using Suc.IH by blast
      have loop: "well_named (fst (fst (for_each
              (\<lambda>child st'. copy_walk depth st' (meta_id child) (meta_id new_obj) u) cs (s1, lg))))"
        for cs :: "file_meta list" and lg
        by (rule for_each_invariant[where P = "\<lambda>st. well_named (fst st)"
              and f = "\<lambda>child st'. copy_walk depth st' (meta_id child) (meta_id new_obj) u"])
           (use step w1 in auto)
      obtain st2 r where l: "for_each
              (\<lambda>child st'. copy_walk depth st' (meta_id child) (meta_id new_obj) u)
              (filter (\<lambda>c. parent_id c = i \<and> user_id c = u \<and> \<not> is_deleted c) (metas s1))
              (s1, snd st @ [(obj, new_obj)]) = (st2, r)"
        by (cases "for_each
              (\<lambda>child st'. copy_walk depth st' (meta_id child) (meta_id new_obj) u)
              (filter (\<lambda>c. parent_id c = i \<and> user_id c = u \<and> \<not> is_deleted c) (metas s1))
              (s1, snd st @ [(obj, new_obj)])")
      from loop[of "filter (\<lambda>c. parent_id c = i \<and> user_id c = u \<and> \<not> is_deleted c) (metas s1)"
          "snd st @ [(obj, new_obj)]"] l
      have "well_named (fst st2)" by simp
      with Some ins True l show ?thesis
        by (cases r) (simp_all add: Let_def)
    qed
  qed
qed

lemma well_named_copy:
  "well_named s \<Longrightarrow> well_named (fst (copy depth s i tgt u))"
  using well_named_copy_walk[of "(s, [])" depth i tgt u]
  by (cases "copy_walk depth (s, []) i tgt u") (simp add: copy_def)

lemma distinct_after_replace:
  assumes "distinct (map key xs)"
      and "distinct (map g (filter P xs))"
      and "g x' \<notin> g ` {y \<in> set xs. P y}"
      and "key x' = k"
  shows "distinct (map g (filter P (map (\<lambda>n. if key n = k then x' else n) xs)))"
  using assms
proof (induction xs)
  case Nil
  then show ?case by simp
next
  case (Cons a rest)
  let ?upd = "\<lambda>n. if key n = k then x' else n"
  have ih: "distinct (map g (filter P (map ?upd rest)))"
    using Cons by (auto split: if_splits)
  have elems: "g ` set (filter P (map ?upd rest)) \<subseteq> g ` {y \<in> set rest. P y} \<union> {g x'}"
    by auto
  show ?case
  proof (cases "key a = k")
    case True
    have "key a \<notin> key ` set rest" using Cons.prems(1) by simp
    then have "\<forall>n \<in> set rest. key n \<noteq> k" using True by (metis image_eqI)
    then have same: "map ?upd rest = rest" by (induction rest) auto
    show ?thesis
    proof (cases "P x'")
      case px: True
      have "g x' \<notin> g ` set (filter P rest)" using Cons.prems(3) by auto
      moreover have "distinct (map g (filter P rest))"
        using Cons.prems(2) by (auto split: if_splits)
      ultimately show ?thesis using True same px by simp
    next
      case False
      have "distinct (map g (filter P rest))"
        using Cons.prems(2) by (auto split: if_splits)
      then show ?thesis using True same False by simp
    qed
  next
    case False
    show ?thesis
    proof (cases "P a")
      case pa: True
      have "g a \<notin> g ` {y \<in> set rest. P y}" using Cons.prems(2) pa by auto
      moreover have "g a \<noteq> g x'"
      proof -
        have "a \<in> {y \<in> set (a # rest). P y}" using pa by simp
        then have "g a \<in> g ` {y \<in> set (a # rest). P y}" by (rule imageI)
        with Cons.prems(3) show ?thesis by metis
      qed
      ultimately have "g a \<notin> g ` set (filter P (map ?upd rest))" using elems by blast
      then show ?thesis using False pa ih by simp
    next
      case False
      then show ?thesis using \<open>key a \<noteq> k\<close> ih by simp
    qed
  qed
qed

lemma distinct_replace_hidden:
  assumes "distinct (map g (filter P xs))" and "\<not> P x'"
  shows "distinct (map g (filter P (map (\<lambda>n. if key n = k then x' else n) xs)))"
proof -
  have "filter P (map (\<lambda>n. if key n = k then x' else n) xs)
          = filter (\<lambda>n. P n \<and> key n \<noteq> k) xs"
    using assms(2) by (induction xs) auto
  then show ?thesis using assms(1) by (simp add: distinct_map_filter_conj)
qed

lemma find_meta_Some:
  "find_meta s i u = Some obj \<Longrightarrow> obj \<in> set (metas s) \<and> meta_id obj = i \<and> user_id obj = u"
  by (auto simp: find_meta_def find_Some_iff)

lemma well_named_move:
  assumes "well_named s" and "move s i tgt u = Some (s', r)"
  shows "well_named s'"
proof (cases "find_meta s i u")
  case None
  with assms show ?thesis by (simp add: move_def)
next
  case (Some obj)
  note o = find_meta_Some[OF Some]
  let ?name = "get_unique_filename_crud s u tgt (file_name obj)"
  let ?obj' = "obj\<lparr>parent_id := tgt, file_name := ?name\<rparr>"
  let ?upd = "\<lambda>n. if meta_id n = i then ?obj' else n"
  let ?s2 = "s\<lparr>metas := map ?upd (metas s)\<rparr>"
  from assms(2) Some have "s' = s \<or> s' = ?s2"
    by (auto simp: move_def Let_def split: option.splits if_splits)
  moreover have "well_named ?s2"
  proof -
    have ids: "map meta_id (map ?upd xs) = map meta_id xs" for xs
      using o by (induction xs) auto
    have mem: "\<forall>n \<in> set (map ?upd (metas s)). meta_id n < next_id s"
      using assms(1) o by (auto simp: well_named_def keyed_def list_all_iff)
    have k: "keyed ?s2"
      unfolding keyed_def list_all_iff
      using assms(1) ids[of "metas s"] mem
      by (simp add: well_named_def keyed_def del: map_map)
    let ?g = "\<lambda>n. (user_id n, parent_id n, file_name n)"
    have u: "distinct (map ?g (filter (\<lambda>n. \<not> is_deleted n) (map ?upd (metas s))))"
    proof (cases "is_deleted obj")
      case True
      then show ?thesis
        using assms(1)
        by (intro distinct_replace_hidden) (simp_all add: well_named_def unique_names_def)
    next
      case False
      have fresh: "?g ?obj' \<notin> ?g ` {y \<in> set (metas s). \<not> is_deleted y}"
      proof
        assume "?g ?obj' \<in> ?g ` {y \<in> set (metas s). \<not> is_deleted y}"
        then obtain y where y: "y \<in> set (metas s)" "\<not> is_deleted y" "user_id y = u"
          "parent_id y = tgt" "file_name y = ?name" using o by auto
        from get_unique_filename_crud_free[OF y(1,3,4,2), of "file_name obj"] y(5)
        show False by simp
      qed
      show ?thesis
        by (rule distinct_after_replace[where key = meta_id])
           (use assms(1) fresh o in \<open>simp_all add: well_named_def keyed_def unique_names_def\<close>)
    qed
    from k u show ?thesis by (simp add: well_named_def unique_names_def)
  qed
  ultimately show ?thesis using assms(1) by auto
qed

lemma well_named_frames:
  "well_named (s\<lparr>disk := d\<rparr>) = well_named s"
  "well_named (fst (increment_ref_count s h)) = well_named s"
  "well_named (fst (create_file_store s h path fsize)) = well_named s"
  "well_named (delete_chunks s upl) = well_named s"
  by (rule well_named_cong;
      simp add: increment_ref_count_frame create_file_store_frame delete_chunks_def)+

lemma well_named_upload_file:
  assumes "well_named s"
  shows "well_named (fst (upload_file digest s cu filename content p None ar tmp storage))"
  using assms
  by (auto simp: upload_file_def target_parent_def Let_def case_prod_beta well_named_frames
      intro!: well_named_commit_node split: sum.splits option.splits)

lemma well_named_check_fast_upload:
  assumes "well_named s"
  shows "well_named (fst (check_fast_upload s cu h fname p None ar))"
  using assms
  by (auto simp: check_fast_upload_def target_parent_def Let_def case_prod_beta well_named_frames
      intro!: well_named_commit_node split: sum.splits option.splits)

lemma well_named_merge_chunks:
  assumes "well_named s"
  shows "well_named (fst (merge_chunks digest s cu upl fname h p None ar storage))"
  using assms
  by (auto simp: merge_chunks_def target_parent_def Let_def case_prod_beta well_named_frames
      intro!: well_named_commit_node split: sum.splits option.splits)

section \<open>The naming invariant\<close>

text \<open>
  Claim C8, as the code has it.  In a namespace with the primary key on identifiers in
  which no two active siblings of an owner share a name, the same holds after each of:
  creating an entry (\<^verbatim>\<open>create_with_user\<close>, and the folder endpoint), committing an upload
  by any of the three endpoints when no relative path is given, copying, moving, soft
  deletion and permanent deletion.  Restore and path resolution are not among them.
\<close>

theorem unique_names_preserved:
  assumes "well_named s"
  shows "well_named (fst (create_with_user s fname folder p h u))
       \<and> well_named (fst (create_folder s u fname p))
       \<and> well_named (fst (upload_file digest s u fname content p None ar tmp storage))
       \<and> well_named (fst (merge_chunks digest s u upl fname hc p None ar storage))
       \<and> well_named (fst (check_fast_upload s u hc fname p None ar))
       \<and> well_named (fst (copy depth s i tgt u))
       \<and> (\<forall>s' r. move s i tgt u = Some (s', r) \<longrightarrow> well_named s')
       \<and> well_named (fst (remove_meta depth now s i u))
       \<and> well_named (fst (permanent_remove depth s i u))"
proof (intro conjI allI impI)
  show "well_named (fst (create_with_user s fname folder p h u))"
    using assms by (rule well_named_create_with_user)
  show "well_named (fst (create_folder s u fname p))"
    using assms by (rule well_named_create_folder)
  show "well_named (fst (upload_file digest s u fname content p None ar tmp storage))"
    using assms by (rule well_named_upload_file)
  show "well_named (fst (merge_chunks digest s u upl fname hc p None ar storage))"
    using assms by (rule well_named_merge_chunks)
  show "well_named (fst (check_fast_upload s u hc fname p None ar))"
    using assms by (rule well_named_check_fast_upload)
  show "well_named (fst (copy depth s i tgt u))"
    using assms by (rule well_named_copy)
  show "well_named s'" if "move s i tgt u = Some (s', r)" for s' r
    using assms that by (rule well_named_move)
  show "well_named (fst (remove_meta depth now s i u))"
    using assms by (rule well_named_remove_meta)
  show "well_named (fst (permanent_remove depth s i u))"
    using assms by (rule well_named_permanent_remove)
qed

theorem unique_names_preserved_witness:
  "well_named one_report
   \<and> file_name (snd (create_with_user one_report ''report.pdf'' False 0 None 7)) = ''report (1).pdf''
   \<and> well_named (fst (create_with_user one_report ''report.pdf'' False 0 None 7))
   \<and> map file_name (metas (fst (copy 5 one_report 1 0 7))) = [''report.pdf'', ''report (1).pdf'']
   \<and> well_named (fst (copy 5 one_report 1 0 7))
   \<and> well_named (fst (remove_meta 5 1000 one_report 1 7))"
proof -
  have w: "well_named one_report"
    by (simp add: well_named_def keyed_def unique_names_def one_report_def)
  have n: "file_name (snd (create_with_user one_report ''report.pdf'' False 0 None 7))
             = ''report (1).pdf''"
    by code_simp
  have c: "map file_name (metas (fst (copy 5 one_report 1 0 7)))
             = [''report.pdf'', ''report (1).pdf'']"
    by code_simp
  from unique_names_preserved[OF w, where fname = "''report.pdf''" and folder = False and p = 0
      and h = None and u = 7 and depth = 5 and i = 1 and tgt = 0 and now = 1000]
  have "well_named (fst (create_with_user one_report ''report.pdf'' False 0 None 7))"
    "well_named (fst (copy 5 one_report 1 0 7))"
    "well_named (fst (remove_meta 5 1000 one_report 1 7))"
    by simp_all
  with w n c show ?thesis by simp
qed

text \<open>
  Claim C8 fails as stated for two of the operations it names.  \<^verbatim>\<open>restore\<close> clears the
  deletion flag of a row and never renames it: a trashed \<open>a.txt\<close> comes back beside an
  active \<open>a.txt\<close>.  \<^verbatim>\<open>get_or_create_path\<close> looks for a folder of the wanted name only:
  beside an active file called \<open>docs\<close> it makes a folder called \<open>docs\<close>.
\<close>

theorem restore_and_path_duplicate_names_counterexample:
  "well_named trashed_twin
   \<and> map_option (\<lambda>(s', r). map (\<lambda>n. (meta_id n, user_id n, parent_id n, file_name n, is_deleted n))
                              (metas s'))
        (restore 5 trashed_twin 1 7)
       = Some [(1, 7, 0, ''a.txt'', False), (2, 7, 0, ''a.txt'', False)]
   \<and> map_option (\<lambda>(s', r). unique_names s') (restore 5 trashed_twin 1 7) = Some False
   \<and> well_named file_named_docs
   \<and> map (\<lambda>n. (meta_id n, user_id n, parent_id n, file_name n, is_folder n, is_deleted n))
        (metas (fst (get_or_create_path file_named_docs 7 0 ''docs/x.txt'')))
       = [(1, 7, 0, ''docs'', False, False), (2, 7, 0, ''docs'', True, False)]
   \<and> \<not> unique_names (fst (get_or_create_path file_named_docs 7 0 ''docs/x.txt''))"
proof -
  have a: "well_named trashed_twin"
    by (simp add: well_named_def keyed_def unique_names_def trashed_twin_def)
  have b: "map_option (\<lambda>(s', r). map (\<lambda>n. (meta_id n, user_id n, parent_id n, file_name n, is_deleted n))
                              (metas s'))
        (restore 5 trashed_twin 1 7)
       = Some [(1, 7, 0, ''a.txt'', False), (2, 7, 0, ''a.txt'', False)]"
    by code_simp
  have c: "map_option (\<lambda>(s', r). unique_names s') (restore 5 trashed_twin 1 7) = Some False"
    by code_simp
  have d: "well_named file_named_docs"
    by (simp add: well_named_def keyed_def unique_names_def file_named_docs_def)
  have e: "map (\<lambda>n. (meta_id n, user_id n, parent_id n, file_name n, is_folder n, is_deleted n))
        (metas (fst (get_or_create_path file_named_docs 7 0 ''docs/x.txt'')))
       = [(1, 7, 0, ''docs'', False, False), (2, 7, 0, ''docs'', True, False)]"
    by code_simp
  have f: "\<not> unique_names (fst (get_or_create_path file_named_docs 7 0 ''docs/x.txt''))"
    by code_simp
  from a b c d e f show ?thesis by blast
qed

section \<open>Moving and the parent pointers\<close>

lemma finite_parent_rel: "finite (parent_rel s u)"
proof -
  have "parent_rel s u \<subseteq> (\<lambda>n. (meta_id n, parent_id n)) ` set (metas s)"
    by (auto simp: parent_rel_def)
  then show ?thesis by (rule finite_subset) simp
qed

lemma keyed_same_row:
  assumes "keyed s" "n \<in> set (metas s)" "m \<in> set (metas s)" "meta_id n = meta_id m"
  shows "n = m"
  using assms by (auto simp: keyed_def distinct_map inj_on_def)

lemma find_meta_None:
  "find_meta s c u = None \<Longrightarrow> c \<notin> Domain (parent_rel s u)"
  by (auto simp: find_meta_def find_None_iff parent_rel_def)

lemma find_meta_edge:
  assumes "find_meta s c u = Some folder" "c \<noteq> 0"
  shows "(c, parent_id folder) \<in> parent_rel s u"
  using find_meta_Some[OF assms(1)] assms(2) by (auto simp: parent_rel_def)

lemma parent_rel_functional:
  assumes "keyed s" "find_meta s c u = Some folder" "(c, y) \<in> parent_rel s u"
  shows "y = parent_id folder"
proof -
  from assms(3) obtain n where n: "n \<in> set (metas s)" "meta_id n = c" "parent_id n = y"
    by (auto simp: parent_rel_def)
  from find_meta_Some[OF assms(2)] have "folder \<in> set (metas s)" "meta_id folder = c" by auto
  with keyed_same_row[OF assms(1) n(1)] n show ?thesis by auto
qed

lemma no_edge_reach:
  assumes "c \<notin> Domain r"
  shows "{y \<in> Domain r. (c, y) \<in> r\<^sup>*} = {}"
proof -
  have "(c, y) \<in> r\<^sup>* \<Longrightarrow> y = c" for y
    using assms by (auto elim: converse_rtranclE)
  with assms show ?thesis by auto
qed

lemma zero_not_in_domain: "0 \<notin> Domain (parent_rel s u)"
  by (auto simp: parent_rel_def)





lemma parent_rel_list:
  "parent_rel s u =
     set (map (\<lambda>n. (meta_id n, parent_id n))
            (filter (\<lambda>n. user_id n = u \<and> meta_id n \<noteq> 0) (metas s)))"
  by (auto simp: parent_rel_def)




section \<open>Restore\<close>

lemma undelete_all_compose:
  "undelete_all A (undelete_all B mem) = undelete_all (A \<union> B) mem"
  by (induction mem) (auto simp: undelete_all_def)

lemma undelete_as_all: "undelete i mem = undelete_all {i} mem"
  by (simp add: undelete_def undelete_all_def)

lemma undelete_all_empty: "undelete_all {} mem = mem"
  by (induction mem) (auto simp: undelete_all_def)

lemma for_each_pure_union:
  assumes "\<And>c m. c \<in> set cs \<Longrightarrow> f c m = Inr (undelete_all (A c) m)"
  shows "for_each_pure f cs mem = Inr (undelete_all (\<Union>c \<in> set cs. A c) mem)"
  using assms
proof (induction cs arbitrary: mem)
  case Nil
  then show ?case by (simp add: undelete_all_empty)
next
  case (Cons c cs)
  have "for_each_pure f (c # cs) mem = for_each_pure f cs (undelete_all (A c) mem)"
    using Cons.prems[of c mem] by simp
  also have "\<dots> = Inr (undelete_all (\<Union>c \<in> set cs. A c) (undelete_all (A c) mem))"
    using Cons.IH[of "undelete_all (A c) mem"] Cons.prems by simp
  also have "\<dots> = Inr (undelete_all (\<Union>c \<in> set (c # cs). A c) mem)"
    by (simp add: undelete_all_compose Un_commute)
  finally show ?case .
qed

lemma del_reach_not_folder: "\<not> is_folder root \<Longrightarrow> del_reach s u root = {}"
proof -
  assume nf: "\<not> is_folder root"
  have "n \<in> del_reach s u root \<Longrightarrow> False" for n
    by (induction rule: del_reach.induct) (use nf in auto)
  then show ?thesis by auto
qed

lemma del_reach_via_child:
  assumes "n \<in> del_reach s u root"
  shows "\<exists>c \<in> set (filter (\<lambda>c. parent_id c = meta_id root \<and> user_id c = u \<and> is_deleted c)
                        (metas s)). n = c \<or> n \<in> del_reach s u c"
  using assms
proof (induction rule: del_reach.induct)
  case (child c)
  then show ?case by auto
next
  case (step p c)
  then obtain c0 where c0: "c0 \<in> set (filter (\<lambda>c. parent_id c = meta_id root \<and> user_id c = u
                                  \<and> is_deleted c) (metas s))"
    "p = c0 \<or> p \<in> del_reach s u c0" by blast
  from c0(2) have "c \<in> del_reach s u c0"
  proof
    assume "p = c0"
    with step show ?thesis by (auto intro: del_reach.child)
  next
    assume "p \<in> del_reach s u c0"
    with step show ?thesis by (auto intro: del_reach.step)
  qed
  with c0(1) show ?case by blast
qed

lemma restore_downwards_reaches:
  assumes "acyclic (parent_rel s u)" and "0 \<notin> meta_id ` set (metas s)"
  shows "\<exists>d A. meta_id ` del_reach s u x \<subseteq> A
            \<and> (\<forall>depth \<ge> d. \<forall>mem. restore_downwards depth s u x mem = Inr (undelete_all A mem))"
proof -
  let ?R = "parent_rel s u"
  have wf: "wf ?R" using finite_parent_rel assms(1) by (rule finite_acyclic_wf)
  define k where "k = meta_id x"
  from wf have "\<forall>x. meta_id x = k \<longrightarrow> (\<exists>d A. meta_id ` del_reach s u x \<subseteq> A
            \<and> (\<forall>depth \<ge> d. \<forall>mem. restore_downwards depth s u x mem = Inr (undelete_all A mem)))"
  proof (induction k rule: wf_induct_rule)
    case (less k)
    show ?case
    proof (intro allI impI)
      fix x :: file_meta
      assume xk: "meta_id x = k"
      show "\<exists>d A. meta_id ` del_reach s u x \<subseteq> A
            \<and> (\<forall>depth \<ge> d. \<forall>mem. restore_downwards depth s u x mem = Inr (undelete_all A mem))"
      proof (cases "is_folder x")
        case False
        have "\<forall>depth \<ge> 1. \<forall>mem. restore_downwards depth s u x mem = Inr (undelete_all {} mem)"
        proof (intro allI impI)
          fix depth :: nat and mem
          assume "1 \<le> depth"
          then obtain j where "depth = Suc j" by (cases depth) auto
          then show "restore_downwards depth s u x mem = Inr (undelete_all {} mem)"
            using False by (simp add: undelete_all_empty)
        qed
        then show ?thesis using del_reach_not_folder[OF False] by blast
      next
        case True
        let ?cs = "filter (\<lambda>c. parent_id c = meta_id x \<and> user_id c = u \<and> is_deleted c) (metas s)"
        have each: "\<forall>c \<in> set ?cs. \<exists>d A. meta_id ` del_reach s u c \<subseteq> A
            \<and> (\<forall>depth \<ge> d. \<forall>mem. restore_downwards depth s u c mem = Inr (undelete_all A mem))"
        proof
          fix c assume c: "c \<in> set ?cs"
          then have "meta_id c \<noteq> 0" using assms(2) by auto
          with c xk have "(meta_id c, k) \<in> ?R" by (auto simp: parent_rel_def)
          from less.IH[OF this] show "\<exists>d A. meta_id ` del_reach s u c \<subseteq> A
            \<and> (\<forall>depth \<ge> d. \<forall>mem. restore_downwards depth s u c mem = Inr (undelete_all A mem))"
            by blast
        qed
        then obtain dc where "\<forall>c \<in> set ?cs. \<exists>A. meta_id ` del_reach s u c \<subseteq> A
            \<and> (\<forall>depth \<ge> dc c. \<forall>mem. restore_downwards depth s u c mem = Inr (undelete_all A mem))"
          using bchoice[of "set ?cs" "\<lambda>c d. \<exists>A. meta_id ` del_reach s u c \<subseteq> A
            \<and> (\<forall>depth \<ge> d. \<forall>mem. restore_downwards depth s u c mem = Inr (undelete_all A mem))"]
          by blast
        then obtain Ac where ac: "\<forall>c \<in> set ?cs. meta_id ` del_reach s u c \<subseteq> Ac c
            \<and> (\<forall>depth \<ge> dc c. \<forall>mem. restore_downwards depth s u c mem
                   = Inr (undelete_all (Ac c) mem))"
          using bchoice[of "set ?cs" "\<lambda>c A. meta_id ` del_reach s u c \<subseteq> A
            \<and> (\<forall>depth \<ge> dc c. \<forall>mem. restore_downwards depth s u c mem = Inr (undelete_all A mem))"]
          by blast
        define d where "d = Suc (Max (insert 0 (dc ` set ?cs)))"
        define A where "A = (\<Union>c \<in> set ?cs. insert (meta_id c) (Ac c))"
        have sub: "meta_id ` del_reach s u x \<subseteq> A"
        proof
          fix i assume "i \<in> meta_id ` del_reach s u x"
          then obtain n where n: "n \<in> del_reach s u x" "i = meta_id n" by auto
          from del_reach_via_child[OF n(1)] obtain c where
            c: "c \<in> set ?cs" "n = c \<or> n \<in> del_reach s u c" by blast
          with ac n(2) show "i \<in> A" unfolding A_def by blast
        qed
        have run: "\<forall>depth \<ge> d. \<forall>mem. restore_downwards depth s u x mem = Inr (undelete_all A mem)"
        proof (intro allI impI)
          fix depth :: nat and mem
          assume "d \<le> depth"
          then obtain j where j: "depth = Suc j" "Max (insert 0 (dc ` set ?cs)) \<le> j"
            unfolding d_def by (cases depth) auto
          have big: "dc c \<le> j" if "c \<in> set ?cs" for c
          proof -
            have "dc c \<le> Max (insert 0 (dc ` set ?cs))"
              by (rule Max_ge) (use that in auto)
            then show ?thesis using j(2) by (rule order_trans)
          qed
          have stepc: "restore_downwards j s u c (undelete (meta_id c) m)
                        = Inr (undelete_all (insert (meta_id c) (Ac c)) m)"
            if "c \<in> set ?cs" for c m
            using ac that big[OF that]
            by (simp add: undelete_as_all undelete_all_compose)
          have "restore_downwards depth s u x mem
                 = for_each_pure (\<lambda>child m. restore_downwards j s u child (undelete (meta_id child) m))
                     ?cs mem"
            using True j(1) by simp
          also have "\<dots> = Inr (undelete_all (\<Union>c \<in> set ?cs. insert (meta_id c) (Ac c)) mem)"
            by (rule for_each_pure_union) (rule stepc)
          finally show "restore_downwards depth s u x mem = Inr (undelete_all A mem)"
            by (simp add: A_def)
        qed
        from sub run show ?thesis by blast
      qed
    qed
  qed
  then show ?thesis by (simp add: k_def)
qed

lemma undelete_deleted_compose:
  "undelete_deleted A (undelete_deleted B mem) = undelete_deleted (A \<union> B) mem"
  by (induction mem) (auto simp: undelete_deleted_def)

lemma undelete_deleted_empty: "undelete_deleted {} mem = mem"
  by (induction mem) (auto simp: undelete_deleted_def)

lemma reach_unfold:
  assumes "keyed s" and "find_meta s c u = Some folder" and "c \<noteq> 0"
  shows "{y \<in> Domain (parent_rel s u). (c, y) \<in> (parent_rel s u)\<^sup>*}
       = insert c {y \<in> Domain (parent_rel s u). (parent_id folder, y) \<in> (parent_rel s u)\<^sup>*}"
proof -
  let ?R = "parent_rel s u"
  have e: "(c, parent_id folder) \<in> ?R" using find_meta_edge[OF assms(2,3)] .
  have reach: "(c, y) \<in> ?R\<^sup>* \<longleftrightarrow> y = c \<or> (parent_id folder, y) \<in> ?R\<^sup>*" for y
  proof
    assume "(c, y) \<in> ?R\<^sup>*"
    then show "y = c \<or> (parent_id folder, y) \<in> ?R\<^sup>*"
    proof (cases rule: converse_rtranclE)
      case base
      then show ?thesis by simp
    next
      case (step z)
      from parent_rel_functional[OF assms(1,2) step(1)] step(2) show ?thesis by simp
    qed
  next
    assume "y = c \<or> (parent_id folder, y) \<in> ?R\<^sup>*"
    then show "(c, y) \<in> ?R\<^sup>*" using e by (auto intro: converse_rtrancl_into_rtrancl)
  qed
  have "c \<in> Domain ?R" using e by auto
  then show ?thesis using reach by auto
qed

lemma restore_upwards_walk:
  assumes "keyed s" and "acyclic (parent_rel s u)"
  shows "restore_upwards s u cur mem =
           Some (undelete_deleted
                   {y \<in> Domain (parent_rel s u). (parent_id cur, y) \<in> (parent_rel s u)\<^sup>*} mem)"
proof -
  let ?R = "parent_rel s u"
  have wf: "wf (?R\<inverse>)"
    using finite_parent_rel assms(2) by (rule finite_acyclic_wf_converse)
  define c where "c = parent_id cur"
  from wf have "\<forall>cur mem. parent_id cur = c \<longrightarrow> restore_upwards s u cur mem =
           Some (undelete_deleted {y \<in> Domain ?R. (c, y) \<in> ?R\<^sup>*} mem)"
  proof (induction c rule: wf_induct_rule)
    case (less c)
    show ?case
    proof (intro allI impI)
      fix cur :: file_meta and mem
      assume pc: "parent_id cur = c"
      show "restore_upwards s u cur mem =
              Some (undelete_deleted {y \<in> Domain ?R. (c, y) \<in> ?R\<^sup>*} mem)"
      proof (cases "c = 0")
        case True
        then have "restore_upwards s u cur mem = Some mem"
          using pc by (subst restore_upwards.simps) simp
        moreover have "{y \<in> Domain ?R. (c, y) \<in> ?R\<^sup>*} = {}"
          using True no_edge_reach[OF zero_not_in_domain] by simp
        ultimately show ?thesis by (simp only: undelete_deleted_empty)
      next
        case nz: False
        show ?thesis
        proof (cases "find_meta s c u")
          case None
          then have "restore_upwards s u cur mem = Some mem"
            using pc nz by (subst restore_upwards.simps) simp
          moreover have "{y \<in> Domain ?R. (c, y) \<in> ?R\<^sup>*} = {}"
            using no_edge_reach[OF find_meta_None[OF None]] .
          ultimately show ?thesis by (simp only: undelete_deleted_empty)
        next
          case (Some parent)
          have e: "(c, parent_id parent) \<in> ?R" using find_meta_edge[OF Some nz] .
          then have bk: "(parent_id parent, c) \<in> ?R\<inverse>" by simp
          have idp: "meta_id parent = c" using find_meta_Some[OF Some] by simp
          let ?mem1 = "map (\<lambda>n. if meta_id n = meta_id parent \<and> is_deleted n
                            then n\<lparr>is_deleted := False, deleted_at := None\<rparr> else n) mem"
          have m1: "?mem1 = undelete_deleted {c} mem"
            using idp by (simp add: undelete_deleted_def)
          have "restore_upwards s u cur mem = restore_upwards s u parent ?mem1"
            using pc nz Some by (subst restore_upwards.simps) simp
          also have "\<dots> = Some (undelete_deleted
                  {y \<in> Domain ?R. (parent_id parent, y) \<in> ?R\<^sup>*} ?mem1)"
            using less.IH[OF bk] by blast
          also have "\<dots> = Some (undelete_deleted {y \<in> Domain ?R. (c, y) \<in> ?R\<^sup>*} mem)"
            unfolding m1 undelete_deleted_compose reach_unfold[OF assms(1) Some nz] by simp
          finally show ?thesis .
        qed
      qed
    qed
  qed
  then show ?thesis by (simp add: c_def)
qed

lemma deleted_descendants_reached:
  assumes "keyed s" and "find_meta s i u = Some obj"
      and trashed: "\<forall>n \<in> set (metas s). user_id n = u \<and> (meta_id n, i) \<in> (parent_rel s u)\<^sup>+
                      \<longrightarrow> is_deleted n"
      and folders: "\<forall>n \<in> set (metas s). user_id n = u
                      \<and> (meta_id n = i \<or> (meta_id n, i) \<in> (parent_rel s u)\<^sup>+)
                      \<and> meta_id n \<in> Range (parent_rel s u) \<longrightarrow> is_folder n"
      and "(k, i) \<in> (parent_rel s u)\<^sup>+"
  shows "\<forall>n \<in> set (metas s). user_id n = u \<and> meta_id n = k \<longrightarrow> n \<in> del_reach s u obj"
  using assms(5)
proof (induction rule: converse_trancl_induct)
  case (base y)
  note o = find_meta_Some[OF assms(2)]
  show ?case
  proof (intro ballI impI)
    fix n assume n: "n \<in> set (metas s)" "user_id n = u \<and> meta_id n = y"
    from base obtain m where m: "m \<in> set (metas s)" "meta_id m = y" "parent_id m = i"
      by (auto simp: parent_rel_def)
    from keyed_same_row[OF assms(1) n(1) m(1)] n(2) m have pn: "parent_id n = i" by auto
    have "is_deleted n" using trashed n base by auto
    moreover have "is_folder obj"
      using folders o base by (auto simp: Range_iff)
    ultimately show "n \<in> del_reach s u obj"
      using n pn o by (auto intro: del_reach.child)
  qed
next
  case (step y z)
  show ?case
  proof (intro ballI impI)
    fix n assume n: "n \<in> set (metas s)" "user_id n = u \<and> meta_id n = y"
    from step(1) obtain m where m: "m \<in> set (metas s)" "meta_id m = y" "parent_id m = z"
      by (auto simp: parent_rel_def)
    from keyed_same_row[OF assms(1) n(1) m(1)] n(2) m have pn: "parent_id n = z" by auto
    from step(2) have "z \<in> Domain (parent_rel s u)" by (auto dest: tranclD)
    then obtain p where p: "p \<in> set (metas s)" "user_id p = u" "meta_id p = z"
      by (auto simp: parent_rel_def)
    with step(3) have pr: "p \<in> del_reach s u obj" by auto
    have "is_folder p"
      using folders p step(1,2) by (auto simp: Range_iff)
    moreover have "(y, i) \<in> (parent_rel s u)\<^sup>+" using step(1,2) by auto
    then have "is_deleted n" using trashed n by auto
    ultimately show "n \<in> del_reach s u obj"
      using pr n pn p by (auto intro: del_reach.step)
  qed
qed

text \<open>
  Claim C4, as the code has it.  Take an existing row of an owner whose parent pointers have
  no cycle, in a table with unique non-zero identifiers in which a row that is not marked
  deleted has no deletion time.  Then for every call depth from some bound on, \<^verbatim>\<open>restore\<close>
  returns the row, and afterwards the row itself, every ancestor of it, and every row that
  the downward pass reaches through soft-deleted rows are not deleted and have no deletion
  time; identifiers, owners, parents and names are as before.  When all descendants of the row are soft-deleted, as a cascading delete leaves
  them, and only folders have children, these are all its descendants.
\<close>

theorem restore_undeletes:
  assumes "keyed s" and "0 \<notin> meta_id ` set (metas s)" and "acyclic (parent_rel s u)"
      and "find_meta s i u = Some obj"
      and flags: "\<forall>n \<in> set (metas s). \<not> is_deleted n \<longrightarrow> deleted_at n = None"
  shows "\<exists>d. \<forall>depth \<ge> d. \<exists>s' r.
           restore depth s i u = Some (s', Inr (Some r))
         \<and> map (\<lambda>n. (meta_id n, user_id n, parent_id n, file_name n)) (metas s')
             = map (\<lambda>n. (meta_id n, user_id n, parent_id n, file_name n)) (metas s)
         \<and> (\<forall>n \<in> set (metas s'). user_id n = u
               \<and> (meta_id n = i \<or> (i, meta_id n) \<in> (parent_rel s u)\<^sup>+
                  \<or> meta_id n \<in> meta_id ` del_reach s u obj)
               \<longrightarrow> \<not> is_deleted n \<and> deleted_at n = None)
         \<and> ((\<forall>n \<in> set (metas s). user_id n = u \<and> (meta_id n, i) \<in> (parent_rel s u)\<^sup>+
                      \<longrightarrow> is_deleted n)
            \<and> (\<forall>n \<in> set (metas s). user_id n = u
                      \<and> (meta_id n = i \<or> (meta_id n, i) \<in> (parent_rel s u)\<^sup>+)
                      \<and> meta_id n \<in> Range (parent_rel s u) \<longrightarrow> is_folder n)
            \<longrightarrow> (\<forall>n \<in> set (metas s'). user_id n = u \<and> (meta_id n, i) \<in> (parent_rel s u)\<^sup>+
                      \<longrightarrow> \<not> is_deleted n \<and> deleted_at n = None))"
proof -
  let ?R = "parent_rel s u"
  note o = find_meta_Some[OF assms(4)]
  from restore_downwards_reaches[OF assms(3,2), of obj] obtain d A where
    A: "meta_id ` del_reach s u obj \<subseteq> A"
    and down: "\<forall>depth \<ge> d. \<forall>mem. restore_downwards depth s u obj mem = Inr (undelete_all A mem)"
    by blast
  define B where "B = {y \<in> Domain ?R. (parent_id obj, y) \<in> ?R\<^sup>*}"
  define clr where "clr = (\<lambda>n :: file_meta. n\<lparr>is_deleted := False, deleted_at := None\<rparr>)"
  define g where "g = (\<lambda>n. if meta_id n \<in> insert i A then clr n
                            else if meta_id n \<in> B \<and> is_deleted n then clr n else n)"
  define mem2 where "mem2 = map g (metas s)"
  have mem2: "undelete_deleted B (undelete_all A (undelete i (metas s))) = mem2"
    unfolding mem2_def g_def clr_def undelete_deleted_def undelete_all_def undelete_def
    by (induction "metas s") auto
  have mem2': "undelete_deleted B (undelete_all A (undelete i xs)) = map g xs" for xs
    unfolding g_def clr_def undelete_deleted_def undelete_all_def undelete_def
    by (induction xs) auto
  have gid: "meta_id (g n) = meta_id n" "user_id (g n) = user_id n" for n
    by (simp_all add: g_def clr_def)
  have frame: "map (\<lambda>n. (meta_id n, user_id n, parent_id n, file_name n)) (map g (metas s))
             = map (\<lambda>n. (meta_id n, user_id n, parent_id n, file_name n)) (metas s)"
    by (simp add: g_def clr_def)
  have found: "\<exists>r. find (\<lambda>n. meta_id n = i) (map g (metas s)) = Some r"
  proof -
    have "g obj \<in> set (map g (metas s))" using o by auto
    moreover have "meta_id (g obj) = i" using o gid by simp
    ultimately show ?thesis
      by (cases "find (\<lambda>n. meta_id n = i) (map g (metas s))")
         (auto simp: find_None_iff simp del: set_map)
  qed
  have run: "\<exists>r. restore depth s i u = Some (s\<lparr>metas := map g (metas s)\<rparr>, Inr (Some r))"
    if "d \<le> depth" for depth
  proof -
    have "restore_downwards depth s u obj (undelete i (metas s))
            = Inr (undelete_all A (undelete i (metas s)))"
      using down that by blast
    moreover have "restore_upwards s u obj (undelete_all A (undelete i (metas s)))
            = Some (map g (metas s))"
      using restore_upwards_walk[OF assms(1,3), of obj] mem2'[of "metas s"]
      by (simp add: B_def)
    ultimately show ?thesis
      using assms(4) found by (auto simp: restore_def)
  qed
  have cleared: "\<not> is_deleted (g n) \<and> deleted_at (g n) = None"
    if "n \<in> set (metas s)" "meta_id n \<in> insert i A \<or> meta_id n \<in> B" for n
    using that flags by (auto simp: g_def clr_def)
  have anc: "y \<in> B" if "(i, y) \<in> ?R\<^sup>+" "n \<in> set (metas s)" "user_id n = u" "meta_id n = y"
    for y n
  proof -
    from that(1) obtain z where z: "(i, z) \<in> ?R" "(z, y) \<in> ?R\<^sup>*" by (auto dest: tranclD)
    from parent_rel_functional[OF assms(1,4) z(1)] z(2)
    have "(parent_id obj, y) \<in> ?R\<^sup>*" by simp
    moreover have "y \<noteq> 0" using that(2,4) assms(2) by auto
    then have "y \<in> Domain ?R" using that(2,3,4) by (auto simp: parent_rel_def)
    ultimately show ?thesis by (simp add: B_def)
  qed
  have part1: "\<forall>n' \<in> set (map g (metas s)). user_id n' = u
               \<and> (meta_id n' = i \<or> (i, meta_id n') \<in> ?R\<^sup>+
                  \<or> meta_id n' \<in> meta_id ` del_reach s u obj)
               \<longrightarrow> \<not> is_deleted n' \<and> deleted_at n' = None"
  proof (intro ballI impI)
    fix n' assume n': "n' \<in> set (map g (metas s))"
      and c: "user_id n' = u \<and> (meta_id n' = i \<or> (i, meta_id n') \<in> ?R\<^sup>+
                  \<or> meta_id n' \<in> meta_id ` del_reach s u obj)"
    from n' obtain n where n: "n \<in> set (metas s)" "n' = g n" by auto
    have "meta_id n \<in> insert i A \<or> meta_id n \<in> B"
      using c n gid A anc[of "meta_id n" n] by auto
    from cleared[OF n(1) this] n(2) show "\<not> is_deleted n' \<and> deleted_at n' = None" by simp
  qed
  have part2: "\<forall>n' \<in> set (map g (metas s)). user_id n' = u \<and> (meta_id n', i) \<in> ?R\<^sup>+
                      \<longrightarrow> \<not> is_deleted n' \<and> deleted_at n' = None"
    if trashed: "\<forall>n \<in> set (metas s). user_id n = u \<and> (meta_id n, i) \<in> ?R\<^sup>+ \<longrightarrow> is_deleted n"
      and folders: "\<forall>n \<in> set (metas s). user_id n = u
                      \<and> (meta_id n = i \<or> (meta_id n, i) \<in> ?R\<^sup>+)
                      \<and> meta_id n \<in> Range ?R \<longrightarrow> is_folder n"
  proof (intro ballI impI)
    fix n' assume n': "n' \<in> set (map g (metas s))"
      and c: "user_id n' = u \<and> (meta_id n', i) \<in> ?R\<^sup>+"
    from n' obtain n where n: "n \<in> set (metas s)" "n' = g n" by auto
    from c n gid have cn: "user_id n = u" "(meta_id n, i) \<in> ?R\<^sup>+" by auto
    from deleted_descendants_reached[OF assms(1,4) trashed folders cn(2)] n(1) cn(1)
    have "n \<in> del_reach s u obj" by blast
    then have "meta_id n \<in> A" using A by auto
    with cleared[OF n(1)] n(2) show "\<not> is_deleted n' \<and> deleted_at n' = None" by simp
  qed
  show ?thesis
  proof (intro exI[of _ d] allI impI)
    fix depth assume "d \<le> depth"
    from run[OF this] obtain r where
      r: "restore depth s i u = Some (s\<lparr>metas := map g (metas s)\<rparr>, Inr (Some r))" by blast
    show "\<exists>s' r.
           restore depth s i u = Some (s', Inr (Some r))
         \<and> map (\<lambda>n. (meta_id n, user_id n, parent_id n, file_name n)) (metas s')
             = map (\<lambda>n. (meta_id n, user_id n, parent_id n, file_name n)) (metas s)
         \<and> (\<forall>n \<in> set (metas s'). user_id n = u
               \<and> (meta_id n = i \<or> (i, meta_id n) \<in> (parent_rel s u)\<^sup>+
                  \<or> meta_id n \<in> meta_id ` del_reach s u obj)
               \<longrightarrow> \<not> is_deleted n \<and> deleted_at n = None)
         \<and> ((\<forall>n \<in> set (metas s). user_id n = u \<and> (meta_id n, i) \<in> (parent_rel s u)\<^sup>+
                      \<longrightarrow> is_deleted n)
            \<and> (\<forall>n \<in> set (metas s). user_id n = u
                      \<and> (meta_id n = i \<or> (meta_id n, i) \<in> (parent_rel s u)\<^sup>+)
                      \<and> meta_id n \<in> Range (parent_rel s u) \<longrightarrow> is_folder n)
            \<longrightarrow> (\<forall>n \<in> set (metas s'). user_id n = u \<and> (meta_id n, i) \<in> (parent_rel s u)\<^sup>+
                      \<longrightarrow> \<not> is_deleted n \<and> deleted_at n = None))"
      apply (rule exI[of _ "s\<lparr>metas := map g (metas s)\<rparr>"])
      apply (rule exI[of _ r])
      using r part1 part2 frame by (simp del: set_map map_map)
  qed
qed


lemma parent_rel_all_trashed: "parent_rel all_trashed 7 = {(1, 0), (2, 1), (3, 2)}"
  by (simp add: parent_rel_list all_trashed_def)

lemma chain_above_three:
  "(x, y) \<in> {(1, 0), (2, 1), (3, 2::int)}\<^sup>+ \<Longrightarrow> y < x"
  by (induction rule: trancl_induct) auto

theorem restore_undeletes_witness:
  "\<exists>d s'. (\<exists>r. restore d all_trashed 1 7 = Some (s', Inr (Some r)))
        \<and> map (\<lambda>n. (meta_id n, is_deleted n, deleted_at n)) (metas s')
            = [(1, False, None), (2, False, None), (3, False, None)]"
proof -
  let ?R = "parent_rel all_trashed 7"
  let ?obj = "hd (metas all_trashed)"
  have k: "keyed all_trashed" by (simp add: keyed_def all_trashed_def)
  have z: "0 \<notin> meta_id ` set (metas all_trashed)" by (simp add: all_trashed_def)
  have a: "acyclic ?R"
    unfolding parent_rel_all_trashed
    by (rule acyclicI_order[where f = "\<lambda>x. nat x"]) auto
  have f: "find_meta all_trashed 1 7 = Some ?obj"
    by (simp add: find_meta_def all_trashed_def)
  have fl: "\<forall>n \<in> set (metas all_trashed). \<not> is_deleted n \<longrightarrow> deleted_at n = None"
    by (simp add: all_trashed_def)
  have tr: "\<forall>n \<in> set (metas all_trashed). user_id n = 7 \<and> (meta_id n, 1) \<in> ?R\<^sup>+
              \<longrightarrow> is_deleted n"
    by (simp add: all_trashed_def)
  have "(1, 3) \<notin> {(1, 0), (2, 1), (3, 2::int)}\<^sup>+" using chain_above_three[of 1 3] by auto
  then have fo: "\<forall>n \<in> set (metas all_trashed). user_id n = 7
                      \<and> (meta_id n = 1 \<or> (meta_id n, 1) \<in> ?R\<^sup>+)
                      \<and> meta_id n \<in> Range ?R \<longrightarrow> is_folder n"
    unfolding parent_rel_all_trashed by (simp add: all_trashed_def)
  have in21: "(2, 1) \<in> ?R\<^sup>+" unfolding parent_rel_all_trashed by auto
  have "(3, 2) \<in> ?R" unfolding parent_rel_all_trashed by simp
  then have in31: "(3, 1) \<in> ?R\<^sup>+" using in21 by (rule trancl_into_trancl2)
  from restore_undeletes[OF k z a f fl] obtain d s' r where
    run: "restore d all_trashed 1 7 = Some (s', Inr (Some r))"
    and fr: "map (\<lambda>n. (meta_id n, user_id n, parent_id n, file_name n)) (metas s')
             = map (\<lambda>n. (meta_id n, user_id n, parent_id n, file_name n)) (metas all_trashed)"
    and top: "\<forall>n \<in> set (metas s'). user_id n = 7
               \<and> (meta_id n = 1 \<or> (1, meta_id n) \<in> ?R\<^sup>+
                  \<or> meta_id n \<in> meta_id ` del_reach all_trashed 7 ?obj)
               \<longrightarrow> \<not> is_deleted n \<and> deleted_at n = None"
    and low: "\<forall>n \<in> set (metas s'). user_id n = 7 \<and> (meta_id n, 1) \<in> ?R\<^sup>+
                      \<longrightarrow> \<not> is_deleted n \<and> deleted_at n = None"
    using tr fo by blast
  from fr obtain x1 x2 x3 where rows: "metas s' = [x1, x2, x3]"
    and ids: "meta_id x1 = 1" "meta_id x2 = 2" "meta_id x3 = 3"
             "user_id x1 = 7" "user_id x2 = 7" "user_id x3 = 7"
    by (auto simp: all_trashed_def map_eq_Cons_conv)
  from top rows ids have c1: "\<not> is_deleted x1 \<and> deleted_at x1 = None" by simp
  from low rows ids in21 have c2: "\<not> is_deleted x2 \<and> deleted_at x2 = None" by simp
  from low rows ids in31 have c3: "\<not> is_deleted x3 \<and> deleted_at x3 = None" by simp
  from rows ids c1 c2 c3
  have "map (\<lambda>n. (meta_id n, is_deleted n, deleted_at n)) (metas s')
            = [(1, False, None), (2, False, None), (3, False, None)]" by simp
  with run show ?thesis
    by (intro exI[of _ d] exI[of _ s'] conjI exI[of _ r])
qed

text \<open>
  Claim C4, counterexample to the sentence as written: folder A (1) holds folder B (2), both
  active, and B holds the soft-deleted file c.txt (3).  Restoring A leaves c.txt in the
  trash: the downward pass asks only for the soft-deleted children of A, finds none, and
  never looks below B.
\<close>

theorem restore_skips_below_active_child_counterexample:
  "map_option (\<lambda>(s', r). (map (\<lambda>n. (meta_id n, is_deleted n)) (metas s'), map_sum id (map_option meta_id) r))
     (restore 5 nested_trash 1 7)
     = Some ([(1, False), (2, False), (3, True)], Inr (Some 1))"
  by code_simp

section \<open>Copy clones what is not deleted\<close>

lemma for_each_invariant_mem:
  assumes "\<And>x st. x \<in> set xs \<Longrightarrow> P st \<Longrightarrow> P (fst (f x st))" and "P s"
  shows "P (fst (for_each f xs s))"
  using assms
proof (induction xs arbitrary: s)
  case Nil
  then show ?case by simp
next
  case (Cons x xs)
  obtain s1 r where fx: "f x s = (s1, r)" by (cases "f x s")
  have p1: "P s1" using Cons.prems(1)[of x s] Cons.prems(2) fx by simp
  show ?case
  proof (cases r)
    case (Inl e)
    with fx p1 show ?thesis by simp
  next
    case (Inr v)
    have "P (fst (for_each f xs s1))"
      by (rule Cons.IH) (use Cons.prems(1) p1 in auto)
    with Inr fx show ?thesis by simp
  qed
qed

lemma cloned_files_append:
  "cloned_files (lg1 @ lg2) h = cloned_files lg1 h + cloned_files lg2 h"
  by (simp add: cloned_files_def)

lemma bump_append: "bump lg2 (bump lg1 rs) = bump (lg1 @ lg2) rs"
  by (induction rs) (auto simp: bump_def cloned_files_append)

lemma bump_nil: "bump [] rs = rs"
  by (induction rs) (auto simp: bump_def cloned_files_def)

lemma bump_folder: "is_folder src \<Longrightarrow> bump [(src, new)] rs = rs"
  by (induction rs) (auto simp: bump_def cloned_files_def)

lemma bump_no_hash:
  "file_hash src = None \<or> file_hash src = Some [] \<Longrightarrow> bump [(src, new)] rs = rs"
  by (induction rs) (auto simp: bump_def cloned_files_def)

lemma bump_file:
  "\<not> is_folder src \<Longrightarrow> file_hash src = Some h \<Longrightarrow> h \<noteq> [] \<Longrightarrow>
   bump [(src, new)] rs = stores (fst (increment_ref_count (s\<lparr>stores := rs\<rparr>) h))"
  by (induction rs) (auto simp: bump_def cloned_files_def increment_ref_count_def Let_def)

lemma grows_refl: "grows u st [] st"
  by (simp add: grows_def bump_nil)

lemma grows_trans:
  assumes "grows u st lg1 st1" and "grows u st1 lg2 st2"
  shows "grows u st (lg1 @ lg2) st2"
  using assms by (simp add: grows_def bump_append add.assoc)

lemma grows_effect:
  assumes "grows u st lg st'"
  shows "snd st' = snd st @ lg" "metas (fst st') = metas (fst st) @ map snd lg"
    "next_id (fst st') = next_id (fst st) + int (length lg)"
    "stores (fst st') = bump lg (stores (fst st))"
    "chunks (fst st') = chunks (fst st)" "users (fst st') = users (fst st)"
    "disk (fst st') = disk (fst st)" "list_all (clone_of u) lg"
  using assms by (simp_all add: grows_def)

lemma keyed_find_meta:
  assumes "keyed s" and "n \<in> set (metas s)" and "user_id n = u"
  shows "find_meta s (meta_id n) u = Some n"
proof (cases "find_meta s (meta_id n) u")
  case None
  with assms(2,3) show ?thesis by (auto simp: find_meta_def find_None_iff)
next
  case (Some m)
  from find_meta_Some[OF Some] keyed_same_row[OF assms(1), of m n] assms(2)
  show ?thesis using Some by auto
qed


lemma under_mono: "set lg \<subseteq> set lg' \<Longrightarrow> under lg pr \<Longrightarrow> under lg' pr"
  by (auto simp: under_def list_ex_iff)

lemma keyed_frame: "metas s' = metas s \<Longrightarrow> next_id s' = next_id s \<Longrightarrow> keyed s' = keyed s"
  by (simp add: keyed_def)

lemma walked_nil: "keyed (fst st) \<Longrightarrow> walked u st i tgt [] st"
  by (simp add: walked_def grows_refl)

lemma walked_single:
  assumes "keyed (fst st)" and "find_meta (fst st) i u = Some obj"
      and "insert_meta (fst st) u tgt name (is_folder obj) (file_hash obj) = (s1, new_obj)"
      and "metas s2 = metas s1" "next_id s2 = next_id s1" "chunks s2 = chunks s1"
          "users s2 = users s1" "disk s2 = disk s1"
          "stores s2 = bump [(obj, new_obj)] (stores s1)"
  shows "walked u st i tgt [(obj, new_obj)] (s2, snd st @ [(obj, new_obj)])"
proof -
  note o = find_meta_Some[OF assms(2)]
  note e = insert_meta_effect[OF assms(3)]
  have "keyed s1" using keyed_insert[OF assms(1,3)] .
  then have k: "keyed s2" using keyed_frame[OF assms(4,5)] by simp
  have eq: "s2 = (fst st)\<lparr>metas := metas (fst st) @ [new_obj],
                           next_id := next_id (fst st) + 1,
                           stores := bump [(obj, new_obj)] (stores (fst st))\<rparr>"
    using assms(4-9) e by (intro db.equality) simp_all
  have g: "grows u st [(obj, new_obj)] (s2, snd st @ [(obj, new_obj)])"
    using eq o e by (simp add: grows_def clone_of_def)
  show ?thesis
    unfolding walked_def using g k o e assms(2,4) by simp
qed


lemma looped_nil: "keyed (fst st1) \<Longrightarrow> looped u up st1 [] st1"
  by (simp add: looped_def grows_refl)

lemma looped_step:
  assumes l: "looped u up st1 lg st2"
      and w: "walked u st2 (meta_id x) (meta_id (snd up)) lg' st3"
      and x: "x \<in> set (metas (fst st1))" "user_id x = u" "\<not> is_deleted x"
             "parent_id x = meta_id (fst up)" "is_folder (fst up)"
  shows "looped u up st1 (lg @ lg') st3"
proof -
  from l have g1: "grows u st1 lg st2" and k2: "keyed (fst st2)"
    and a1: "list_all (\<lambda>pr. \<not> is_deleted (fst pr)) lg"
    and u1: "list_all (under (up # lg)) lg"
    and i1: "list_all (\<lambda>pr. next_id (fst st1) \<le> meta_id (snd pr)) lg"
    and p1: "list_all (\<lambda>pr. parent_id (snd pr) = meta_id (snd up)
                         \<or> next_id (fst st1) \<le> parent_id (snd pr)) lg"
    and r1: "list_all (\<lambda>pr. fst pr \<in> set (metas (fst st2))) lg"
    by (simp_all add: looped_def)
  from w have g2: "grows u st2 lg' st3" and k3: "keyed (fst st3)"
    and a2: "list_all (\<lambda>pr. \<not> is_deleted (fst pr)) (tl lg')"
    and u2: "list_all (under lg') (tl lg')"
    and i2: "list_all (\<lambda>pr. next_id (fst st2) \<le> meta_id (snd pr)) lg'"
    and p2: "list_all (\<lambda>pr. parent_id (snd pr) = meta_id (snd up)
                         \<or> next_id (fst st2) \<le> parent_id (snd pr)) lg'"
    and r2: "list_all (\<lambda>pr. fst pr \<in> set (metas (fst st3))) lg'"
    and h2: "lg' = [] \<or> find_meta (fst st2) (meta_id x) u = Some (fst (hd lg'))
                        \<and> parent_id (snd (hd lg')) = meta_id (snd up)"
    by (simp_all add: walked_def)
  note e1 = grows_effect[OF g1]
  note e2 = grows_effect[OF g2]
  have n12: "next_id (fst st1) \<le> next_id (fst st2)" using e1(3) by simp
  have "x \<in> set (metas (fst st2))" using x(1) e1(2) by simp
  from keyed_find_meta[OF k2 this x(2)]
  have fx: "find_meta (fst st2) (meta_id x) u = Some x" .
  have hd: "lg' = [] \<or> (fst (hd lg') = x \<and> parent_id (snd (hd lg')) = meta_id (snd up))"
    using h2 fx by auto
  have g: "grows u st1 (lg @ lg') st3" using grows_trans[OF g1 g2] .
  have a: "list_all (\<lambda>pr. \<not> is_deleted (fst pr)) (lg @ lg')"
    using a1 a2 hd x(3) by (cases lg') auto
  have u1': "list_all (under (up # lg @ lg')) lg"
    using u1 under_mono[of "up # lg" "up # lg @ lg'"] by (auto simp: list_all_iff)
  have u2': "list_all (under (up # lg @ lg')) (tl lg')"
    using u2 under_mono[of lg' "up # lg @ lg'"] by (auto simp: list_all_iff)
  have uh: "lg' = [] \<or> under (up # lg @ lg') (hd lg')"
    using hd x(4,5) by (auto simp: under_def)
  have uu: "list_all (under (up # lg @ lg')) (lg @ lg')"
    using u1' u2' uh by (cases lg') auto
  have i: "list_all (\<lambda>pr. next_id (fst st1) \<le> meta_id (snd pr)) (lg @ lg')"
    using i1 i2 n12 by (auto simp: list_all_iff)
  have p: "list_all (\<lambda>pr. parent_id (snd pr) = meta_id (snd up)
                         \<or> next_id (fst st1) \<le> parent_id (snd pr)) (lg @ lg')"
    using p1 p2 n12 by (auto simp: list_all_iff)
  have r: "list_all (\<lambda>pr. fst pr \<in> set (metas (fst st3))) (lg @ lg')"
    using r1 r2 e2(2) by (auto simp: list_all_iff)
  show ?thesis unfolding looped_def using g k3 a uu i p r by simp
qed

lemma walked_cons:
  assumes w: "walked u st i tgt [(obj, new_obj)] st1"
      and l: "looped u (obj, new_obj) st1 lg st2"
      and n: "meta_id new_obj = next_id (fst st)"
  shows "walked u st i tgt ((obj, new_obj) # lg) st2"
proof -
  from w have g1: "grows u st [(obj, new_obj)] st1"
    and r1: "obj \<in> set (metas (fst st1))"
    and h1: "find_meta (fst st) i u = Some obj" "parent_id new_obj = tgt"
    by (simp_all add: walked_def)
  from l have g2: "grows u st1 lg st2" and k2: "keyed (fst st2)"
    and a2: "list_all (\<lambda>pr. \<not> is_deleted (fst pr)) lg"
    and u2: "list_all (under ((obj, new_obj) # lg)) lg"
    and i2: "list_all (\<lambda>pr. next_id (fst st1) \<le> meta_id (snd pr)) lg"
    and p2: "list_all (\<lambda>pr. parent_id (snd pr) = meta_id new_obj
                         \<or> next_id (fst st1) \<le> parent_id (snd pr)) lg"
    and r2: "list_all (\<lambda>pr. fst pr \<in> set (metas (fst st2))) lg"
    by (simp_all add: looped_def)
  note e1 = grows_effect[OF g1]
  note e2 = grows_effect[OF g2]
  have n01: "next_id (fst st) \<le> next_id (fst st1)" using e1(3) by simp
  have g: "grows u st ((obj, new_obj) # lg) st2" using grows_trans[OF g1 g2] by simp
  have i: "list_all (\<lambda>pr. next_id (fst st) \<le> meta_id (snd pr)) ((obj, new_obj) # lg)"
    using i2 n01 n by (auto simp: list_all_iff)
  have p: "list_all (\<lambda>pr. parent_id (snd pr) = tgt
                         \<or> next_id (fst st) \<le> parent_id (snd pr)) ((obj, new_obj) # lg)"
    using p2 n01 n h1(2) by (auto simp: list_all_iff)
  have r: "list_all (\<lambda>pr. fst pr \<in> set (metas (fst st2))) ((obj, new_obj) # lg)"
    using r1 r2 e2(2) by (auto simp: list_all_iff)
  show ?thesis unfolding walked_def using g k2 a2 u2 i p r h1 by simp
qed

lemma copy_walk_walked:
  assumes "keyed (fst st)" and "copy_walk depth st i tgt u = (st', r)"
  shows "\<exists>lg. walked u st i tgt lg st'
              \<and> (\<forall>new. r = Inr (Some new) \<longrightarrow> lg \<noteq> [] \<and> snd (hd lg) = new)"
  using assms
proof (induction depth arbitrary: st i tgt st' r)
  case 0
  then show ?case using walked_nil[of st u i tgt] by auto
next
  case (Suc depth)
  show ?case
  proof (cases "find_meta (fst st) i u")
    case None
    with Suc.prems walked_nil[of st u i tgt] show ?thesis by auto
  next
    case (Some obj)
    note o = find_meta_Some[OF Some]
    obtain s1 new_obj where ins: "insert_meta (fst st) u tgt
                  (get_unique_filename_crud (fst st) u tgt (file_name obj))
                  (is_folder obj) (file_hash obj) = (s1, new_obj)"
      by (cases "insert_meta (fst st) u tgt
                  (get_unique_filename_crud (fst st) u tgt (file_name obj))
                  (is_folder obj) (file_hash obj)")
    note e = insert_meta_effect[OF ins]
    let ?log1 = "snd st @ [(obj, new_obj)]"
    show ?thesis
    proof (cases "is_folder obj")
      case False
      show ?thesis
      proof (cases "file_hash obj = None \<or> file_hash obj = Some []")
        case True
        then have res: "st' = (s1, ?log1)" "r = Inr (Some new_obj)"
          using Suc.prems(2) Some ins False by (auto simp: Let_def)
        have "walked u st i tgt [(obj, new_obj)] (s1, ?log1)"
          by (rule walked_single[OF Suc.prems(1) Some ins])
             (simp_all add: bump_no_hash[OF True])
        with res show ?thesis by auto
      next
        case nonempty: False
        then obtain h where h: "file_hash obj = Some h" "h \<noteq> []" by auto
        then have res: "st' = (fst (increment_ref_count s1 h), ?log1)" "r = Inr (Some new_obj)"
          using Suc.prems(2) Some ins False by (auto simp: Let_def)
        have "stores (fst (increment_ref_count s1 h)) = bump [(obj, new_obj)] (stores s1)"
          using bump_file[OF False h, of new_obj "stores s1" s1] by simp
        then have "walked u st i tgt [(obj, new_obj)] (fst (increment_ref_count s1 h), ?log1)"
          by (intro walked_single[OF Suc.prems(1) Some ins])
             (simp_all add: increment_ref_count_frame)
        with res show ?thesis by auto
      qed
    next
      case True
      let ?cs = "filter (\<lambda>c. parent_id c = i \<and> user_id c = u \<and> \<not> is_deleted c) (metas s1)"
      let ?f = "\<lambda>child st'. copy_walk depth st' (meta_id child) (meta_id new_obj) u"
      have w1: "walked u st i tgt [(obj, new_obj)] (s1, ?log1)"
        by (rule walked_single[OF Suc.prems(1) Some ins]) (simp_all add: bump_folder[OF True])
      then have k1: "keyed s1" by (simp add: walked_def)
      have step: "\<exists>lg. looped u (obj, new_obj) (s1, ?log1) lg (fst (?f x st2))"
        if "x \<in> set ?cs" and "\<exists>lg. looped u (obj, new_obj) (s1, ?log1) lg st2" for x st2
      proof -
        from that(2) obtain lg where l: "looped u (obj, new_obj) (s1, ?log1) lg st2" by blast
        then have k2: "keyed (fst st2)" by (simp add: looped_def)
        obtain st3 r3 where c: "copy_walk depth st2 (meta_id x) (meta_id new_obj) u = (st3, r3)"
          by (cases "copy_walk depth st2 (meta_id x) (meta_id new_obj) u")
        from Suc.IH[OF k2 c] obtain lg' where
          w: "walked u st2 (meta_id x) (meta_id new_obj) lg' st3" by blast
        have w': "walked u st2 (meta_id x) (meta_id (snd (obj, new_obj))) lg' st3"
          using w by simp
        have x1: "x \<in> set (metas (fst (s1, ?log1)))" using that(1) by simp
        have x2: "user_id x = u" using that(1) by simp
        have x3: "\<not> is_deleted x" using that(1) by simp
        have x4: "parent_id x = meta_id (fst (obj, new_obj))" using that(1) o by simp
        have x5: "is_folder (fst (obj, new_obj))" using True by simp
        have "looped u (obj, new_obj) (s1, ?log1) (lg @ lg') st3"
          using l w' x1 x2 x3 x4 x5 by (rule looped_step)
        with c show ?thesis by auto
      qed
      have "\<exists>lg. looped u (obj, new_obj) (s1, ?log1) lg (fst (for_each ?f ?cs (s1, ?log1)))"
        by (rule for_each_invariant_mem[where
              P = "\<lambda>st2. \<exists>lg. looped u (obj, new_obj) (s1, ?log1) lg st2" and f = ?f])
           (use step looped_nil[of "(s1, ?log1)" u "(obj, new_obj)"] k1 in auto)
      then obtain lg where l: "looped u (obj, new_obj) (s1, ?log1) lg
                                  (fst (for_each ?f ?cs (s1, ?log1)))" by blast
      obtain st2 r2 where fe: "for_each ?f ?cs (s1, ?log1) = (st2, r2)"
        by (cases "for_each ?f ?cs (s1, ?log1)")
      have cw: "copy_walk (Suc depth) st i tgt u
                  = (case r2 of Inl e \<Rightarrow> (st2, Inl e) | Inr x \<Rightarrow> (st2, Inr (Some new_obj)))"
        using Some ins True fe by (simp add: Let_def)
      have res: "st' = st2 \<and> (r = Inr (Some new_obj) \<or> (\<exists>e. r = Inl e))"
        using Suc.prems(2) unfolding cw by (cases r2) auto
      have "walked u st i tgt ((obj, new_obj) # lg) st2"
        by (rule walked_cons[OF w1]) (use l fe e in simp_all)
      with res show ?thesis by auto
    qed
  qed
qed


lemma act_reach_not_folder: "\<not> is_folder root \<Longrightarrow> act_reach s u root = {}"
proof -
  assume nf: "\<not> is_folder root"
  have "n \<in> act_reach s u root \<Longrightarrow> False" for n
    by (induction rule: act_reach.induct) (use nf in auto)
  then show ?thesis by auto
qed

lemma act_reach_below:
  assumes "n \<in> act_reach s u c" and "c \<in> act_reach s u x"
  shows "n \<in> act_reach s u x"
  using assms
proof (induction rule: act_reach.induct)
  case (child n)
  then show ?case using act_reach.step[of c s u x n] by simp
next
  case (step p n)
  then show ?case using act_reach.step[of p s u x n] by simp
qed

lemma act_reach_unfold:
  assumes "is_folder x"
  shows "act_reach s u x
       = (\<Union>c \<in> set (filter (\<lambda>c. parent_id c = meta_id x \<and> user_id c = u \<and> \<not> is_deleted c)
                         (metas s)). insert c (act_reach s u c))"
    (is "_ = ?U")
proof
  show "act_reach s u x \<subseteq> ?U"
  proof
    fix n assume "n \<in> act_reach s u x"
    then show "n \<in> ?U"
    proof (induction rule: act_reach.induct)
      case (child c)
      then show ?case by auto
    next
      case (step p c)
      from step.IH obtain c0 where c0: "c0 \<in> set (metas s)" "parent_id c0 = meta_id x"
        "user_id c0 = u" "\<not> is_deleted c0" "p = c0 \<or> p \<in> act_reach s u c0" by auto
      have "c \<in> act_reach s u c0"
      proof (cases "p = c0")
        case True
        with step.hyps show ?thesis using act_reach.child[of c0 c s u] by simp
      next
        case False
        with c0(5) step.hyps show ?thesis using act_reach.step[of p s u c0 c] by simp
      qed
      with c0 show ?case by auto
    qed
  qed
next
  show "?U \<subseteq> act_reach s u x"
  proof
    fix n assume "n \<in> ?U"
    then obtain c where c: "c \<in> set (metas s)" "parent_id c = meta_id x" "user_id c = u"
      "\<not> is_deleted c" "n = c \<or> n \<in> act_reach s u c" by auto
    have cx: "c \<in> act_reach s u x" using act_reach.child[OF assms c(1,2,3,4)] .
    from c(5) show "n \<in> act_reach s u x"
    proof
      assume "n = c" with cx show ?thesis by simp
    next
      assume "n \<in> act_reach s u c"
      then show ?thesis using cx by (rule act_reach_below)
    qed
  qed
qed

lemma for_each_succeeds:
  assumes "\<And>x A st. x \<in> set xs \<Longrightarrow> Q A st \<Longrightarrow> \<exists>st' v. f x st = (st', Inr v) \<and> Q (A \<union> h x) st'"
      and "Q A s"
  shows "\<exists>s'. for_each f xs s = (s', Inr ()) \<and> Q (A \<union> (\<Union>x \<in> set xs. h x)) s'"
  using assms
proof (induction xs arbitrary: A s)
  case Nil
  then show ?case by simp
next
  case (Cons x xs)
  from Cons.prems(1)[of x A s] Cons.prems(2) obtain s1 v where
    fx: "f x s = (s1, Inr v)" and q1: "Q (A \<union> h x) s1" by auto
  have "\<exists>s'. for_each f xs s1 = (s', Inr ()) \<and> Q ((A \<union> h x) \<union> (\<Union>x \<in> set xs. h x)) s'"
    by (rule Cons.IH) (use Cons.prems(1) q1 in auto)
  then obtain s' where "for_each f xs s1 = (s', Inr ())"
    "Q ((A \<union> h x) \<union> (\<Union>x \<in> set xs. h x)) s'" by blast
  moreover have "(A \<union> h x) \<union> (\<Union>x \<in> set xs. h x) = A \<union> (\<Union>y \<in> set (x # xs). h y)" by auto
  ultimately show ?case using fx by simp
qed

lemma beside_grows:
  assumes "beside s0 D st" and "grows u st lg st'" and "keyed (fst st')"
      and "list_all (\<lambda>pr. parent_id (snd pr) = t \<or> n \<le> parent_id (snd pr)) lg"
      and "t \<notin> D" and "\<forall>j \<in> D. j < n"
  shows "beside s0 D st'"
proof -
  from assms(1) obtain extra where e: "metas (fst st) = metas s0 @ extra"
    "list_all (\<lambda>e. parent_id e \<notin> D) extra" by (auto simp: beside_def)
  have "list_all (\<lambda>e. parent_id e \<notin> D) (map snd lg)"
    using assms(4,5,6) by (fastforce simp: list_all_iff)
  with e grows_effect(2)[OF assms(2)] assms(3) show ?thesis
    unfolding beside_def by (intro conjI exI[of _ "extra @ map snd lg"]) simp_all
qed

lemma beside_children:
  assumes "beside s0 D st" and "k \<in> D"
  shows "filter (\<lambda>c. parent_id c = k \<and> user_id c = u \<and> \<not> is_deleted c) (metas (fst st))
       = filter (\<lambda>c. parent_id c = k \<and> user_id c = u \<and> \<not> is_deleted c) (metas s0)"
proof -
  from assms(1) obtain extra where e: "metas (fst st) = metas s0 @ extra"
    "list_all (\<lambda>e. parent_id e \<notin> D) extra" by (auto simp: beside_def)
  have "filter (\<lambda>c. parent_id c = k \<and> user_id c = u \<and> \<not> is_deleted c) extra = []"
    using e(2) assms(2) by (auto simp: filter_empty_conv list_all_iff)
  with e(1) show ?thesis by simp
qed

lemma subtree_rows:
  assumes "i \<in> meta_id ` set (metas s0)" and "(j, i) \<in> (parent_rel s0 u)\<^sup>*"
  shows "j \<in> meta_id ` set (metas s0)"
  using assms(2)
proof (cases rule: converse_rtranclE)
  case base
  with assms(1) show ?thesis by simp
next
  case (step y)
  then show ?thesis by (auto simp: parent_rel_def)
qed

lemma beside_bound:
  assumes "beside s0 D st" and "D \<subseteq> meta_id ` set (metas s0)" and "j \<in> D"
  shows "j < next_id (fst st)"
proof -
  from assms(2,3) obtain n where n: "n \<in> set (metas s0)" "meta_id n = j" by auto
  from assms(1) have "keyed (fst st)" "n \<in> set (metas (fst st))"
    using n(1) by (auto simp: beside_def)
  then show ?thesis using n(2) by (auto simp: keyed_def list_all_iff)
qed


lemma copy_walk_returns:
  assumes k0: "keyed s0" and z: "0 \<notin> meta_id ` set (metas s0)"
      and ac: "acyclic (parent_rel s0 u)"
      and D: "D = {j. (j, i) \<in> (parent_rel s0 u)\<^sup>*}"
      and iD: "i \<in> meta_id ` set (metas s0)"
  shows "\<forall>x. x \<in> set (metas s0) \<and> user_id x = u \<and> meta_id x = k \<and> k \<in> D \<longrightarrow>
          (\<exists>d. \<forall>depth \<ge> d. \<forall>st tgt. beside s0 D st \<and> tgt \<notin> D \<longrightarrow>
             (\<exists>st' new lg. copy_walk depth st k tgt u = (st', Inr (Some new))
                 \<and> walked u st k tgt lg st' \<and> lg \<noteq> [] \<and> hd lg = (x, new)
                 \<and> fst ` set lg = insert x (act_reach s0 u x)))"
proof -
  let ?R = "parent_rel s0 u"
  have wf: "wf ?R" using finite_parent_rel ac by (rule finite_acyclic_wf)
  have Dsub: "D \<subseteq> meta_id ` set (metas s0)"
    unfolding D using subtree_rows[OF iD] by auto
  from wf show ?thesis
  proof (induction k rule: wf_induct_rule)
    case (less k)
    show ?case
    proof (intro allI impI)
      fix x :: file_meta
      assume xa: "x \<in> set (metas s0) \<and> user_id x = u \<and> meta_id x = k \<and> k \<in> D"
      then have x: "x \<in> set (metas s0)" "user_id x = u" "meta_id x = k" "k \<in> D" by auto
      let ?cs = "filter (\<lambda>c. parent_id c = k \<and> user_id c = u \<and> \<not> is_deleted c) (metas s0)"
      let ?live = "\<lambda>c d. \<forall>depth \<ge> d. \<forall>st tgt. beside s0 D st \<and> tgt \<notin> D \<longrightarrow>
             (\<exists>st' new lg. copy_walk depth st (meta_id c) tgt u = (st', Inr (Some new))
                 \<and> walked u st (meta_id c) tgt lg st' \<and> lg \<noteq> [] \<and> hd lg = (c, new)
                 \<and> fst ` set lg = insert c (act_reach s0 u c))"
      have each: "\<forall>c \<in> set ?cs. \<exists>d. ?live c d"
      proof
        fix c assume c: "c \<in> set ?cs"
        then have "meta_id c \<noteq> 0" using z by auto
        with c have e: "(meta_id c, k) \<in> ?R" by (auto simp: parent_rel_def)
        with x(4) have "meta_id c \<in> D" unfolding D by auto
        with less.IH[OF e] c show "\<exists>d. ?live c d" by auto
      qed
      then obtain dc where dc: "\<forall>c \<in> set ?cs. ?live c (dc c)"
        using bchoice[of "set ?cs" ?live] by blast
      define d where "d = Suc (Max (insert 0 (dc ` set ?cs)))"
      have "\<forall>depth \<ge> d. \<forall>st tgt. beside s0 D st \<and> tgt \<notin> D \<longrightarrow>
             (\<exists>st' new lg. copy_walk depth st k tgt u = (st', Inr (Some new))
                 \<and> walked u st k tgt lg st' \<and> lg \<noteq> [] \<and> hd lg = (x, new)
                 \<and> fst ` set lg = insert x (act_reach s0 u x))"
      proof (intro allI impI)
        fix depth :: nat and st :: "db \<times> copy_log" and tgt :: int
        assume dd: "d \<le> depth" and bt: "beside s0 D st \<and> tgt \<notin> D"
        then have b: "beside s0 D st" and t: "tgt \<notin> D" by auto
        from dd obtain j where j: "depth = Suc j" "Max (insert 0 (dc ` set ?cs)) \<le> j"
          unfolding d_def by (cases depth) auto
        have big: "dc c \<le> j" if "c \<in> set ?cs" for c
        proof -
          have "dc c \<le> Max (insert 0 (dc ` set ?cs))"
            by (rule Max_ge) (use that in auto)
          then show ?thesis using j(2) by (rule order_trans)
        qed
        have kst: "keyed (fst st)" using b by (simp add: beside_def)
        have "x \<in> set (metas (fst st))" using b x(1) by (auto simp: beside_def)
        from keyed_find_meta[OF kst this x(2)] x(3)
        have fm: "find_meta (fst st) k u = Some x" by simp
        obtain s1 new_obj where ins: "insert_meta (fst st) u tgt
                  (get_unique_filename_crud (fst st) u tgt (file_name x))
                  (is_folder x) (file_hash x) = (s1, new_obj)"
          by (cases "insert_meta (fst st) u tgt
                  (get_unique_filename_crud (fst st) u tgt (file_name x))
                  (is_folder x) (file_hash x)")
        note e = insert_meta_effect[OF ins]
        let ?log1 = "snd st @ [(x, new_obj)]"
        show "\<exists>st' new lg. copy_walk depth st k tgt u = (st', Inr (Some new))
                 \<and> walked u st k tgt lg st' \<and> lg \<noteq> [] \<and> hd lg = (x, new)
                 \<and> fst ` set lg = insert x (act_reach s0 u x)"
        proof (cases "is_folder x")
          case False
          have ar: "act_reach s0 u x = {}" using act_reach_not_folder[OF False] .
          show ?thesis
          proof (cases "file_hash x = None \<or> file_hash x = Some []")
            case True
            then have res: "copy_walk depth st k tgt u = ((s1, ?log1), Inr (Some new_obj))"
              using j(1) fm ins False by (auto simp: Let_def)
            have "walked u st k tgt [(x, new_obj)] (s1, ?log1)"
              by (rule walked_single[OF kst fm ins])
                 (simp_all add: bump_no_hash[OF True])
            with res ar show ?thesis by auto
          next
            case nonempty: False
            then obtain h where h: "file_hash x = Some h" "h \<noteq> []" by auto
            then have res: "copy_walk depth st k tgt u
                       = ((fst (increment_ref_count s1 h), ?log1), Inr (Some new_obj))"
              using j(1) fm ins False by (auto simp: Let_def)
            have "stores (fst (increment_ref_count s1 h)) = bump [(x, new_obj)] (stores s1)"
              using bump_file[OF False h, of new_obj "stores s1" s1] by simp
            then have "walked u st k tgt [(x, new_obj)] (fst (increment_ref_count s1 h), ?log1)"
              by (intro walked_single[OF kst fm ins])
                 (simp_all add: increment_ref_count_frame)
            with res ar show ?thesis by auto
          qed
        next
          case True
          let ?f = "\<lambda>child st'. copy_walk j st' (meta_id child) (meta_id new_obj) u"
          let ?up = "(x, new_obj)"
          let ?st1 = "(s1, ?log1)"
          have w1: "walked u st k tgt [?up] ?st1"
            by (rule walked_single[OF kst fm ins]) (simp_all add: bump_folder[OF True])
          then have g1: "grows u st [?up] ?st1" and k1: "keyed s1" by (simp_all add: walked_def)
          have bound: "\<forall>j \<in> D. j < next_id (fst st)"
            using beside_bound[OF b Dsub] by blast
          have b1: "beside s0 D ?st1"
            by (rule beside_grows[OF b g1 _ _ t bound]) (use k1 e t in simp_all)
          have nD: "meta_id new_obj \<notin> D" using bound e(3) by auto
          have bound1: "\<forall>j \<in> D. j < next_id (fst ?st1)" using bound e(2) by auto
          have cs: "filter (\<lambda>c. parent_id c = k \<and> user_id c = u \<and> \<not> is_deleted c) (metas s1)
                      = ?cs"
            using beside_children[OF b1 x(4), of u] by simp
          define Q where "Q = (\<lambda>A st2. \<exists>lg. looped u ?up ?st1 lg st2 \<and> fst ` set lg = A)"
          have step: "\<exists>st3 v. ?f c st2 = (st3, Inr v) \<and> Q (A \<union> insert c (act_reach s0 u c)) st3"
            if "c \<in> set ?cs" and "Q A st2" for c A st2
          proof -
            from that(2) obtain lg where l: "looped u ?up ?st1 lg st2" and s: "fst ` set lg = A"
              unfolding Q_def by blast
            from l have g2: "grows u ?st1 lg st2" and k2: "keyed (fst st2)"
              and p2: "list_all (\<lambda>pr. parent_id (snd pr) = meta_id (snd ?up)
                         \<or> next_id (fst ?st1) \<le> parent_id (snd pr)) lg"
              by (simp_all add: looped_def)
            have nD': "meta_id (snd ?up) \<notin> D" using nD by simp
            have b2: "beside s0 D st2"
              using b1 g2 k2 p2 nD' bound1 by (rule beside_grows)
            from dc that(1) big[OF that(1)] b2 nD obtain st3 new lg' where
              r: "copy_walk j st2 (meta_id c) (meta_id new_obj) u = (st3, Inr (Some new))"
              and w: "walked u st2 (meta_id c) (meta_id new_obj) lg' st3"
              and s': "fst ` set lg' = insert c (act_reach s0 u c)"
              by blast
            have w': "walked u st2 (meta_id c) (meta_id (snd ?up)) lg' st3" using w by simp
            have x1: "c \<in> set (metas (fst ?st1))" using that(1) e(1) b
              by (auto simp: beside_def)
            have x2: "user_id c = u" using that(1) by simp
            have x3: "\<not> is_deleted c" using that(1) by simp
            have x4: "parent_id c = meta_id (fst ?up)" using that(1) x(3) by simp
            have x5: "is_folder (fst ?up)" using True by simp
            have "looped u ?up ?st1 (lg @ lg') st3"
              using l w' x1 x2 x3 x4 x5 by (rule looped_step)
            moreover have "fst ` set (lg @ lg') = A \<union> insert c (act_reach s0 u c)"
              using s s' by auto
            ultimately have "Q (A \<union> insert c (act_reach s0 u c)) st3"
              unfolding Q_def by blast
            with r show ?thesis by blast
          qed
          have q0: "Q {} ?st1" unfolding Q_def using looped_nil[of ?st1 u ?up] k1 by auto
          have "\<exists>s'. for_each ?f ?cs ?st1 = (s', Inr ())
                  \<and> Q ({} \<union> (\<Union>c \<in> set ?cs. insert c (act_reach s0 u c))) s'"
            using step q0
            by (rule for_each_succeeds[where Q = Q and f = ?f
                  and h = "\<lambda>c. insert c (act_reach s0 u c)"])
          then obtain st2 lg where fe: "for_each ?f ?cs ?st1 = (st2, Inr ())"
            and l: "looped u ?up ?st1 lg st2"
            and s: "fst ` set lg = (\<Union>c \<in> set ?cs. insert c (act_reach s0 u c))"
            unfolding Q_def by auto
          have res: "copy_walk depth st k tgt u = (st2, Inr (Some new_obj))"
            using j(1) fm ins True fe cs by (simp add: Let_def)
          have w: "walked u st k tgt (?up # lg) st2"
            by (rule walked_cons[OF w1 l]) (use e in simp)
          have ss: "fst ` set (?up # lg) = insert x (act_reach s0 u x)"
            using s act_reach_unfold[OF True, of s0 u] x(3) by simp
          have hh: "?up # lg \<noteq> [] \<and> hd (?up # lg) = (x, new_obj)" by simp
          from res w hh ss show ?thesis
            by (intro exI[of _ st2] exI[of _ new_obj] exI[of _ "?up # lg"] conjI) simp_all
        qed
      qed
      then show "\<exists>d. \<forall>depth \<ge> d. \<forall>st tgt. beside s0 D st \<and> tgt \<notin> D \<longrightarrow>
             (\<exists>st' new lg. copy_walk depth st k tgt u = (st', Inr (Some new))
                 \<and> walked u st k tgt lg st' \<and> lg \<noteq> [] \<and> hd lg = (x, new)
                 \<and> fst ` set lg = insert x (act_reach s0 u x))"
        by blast
    qed
  qed
qed


text \<open>
  Claim C10.  Take a table with unique identifiers and an existing row \<open>i\<close> of owner \<open>u\<close>.
  Whatever the call depth, \<^verbatim>\<open>copy\<close> only appends rows to the table, one clone for each
  pair of its log; a clone is an active row of the owner with the kind and the hash of its
  source; the first pair is the row asked for and its clone below the target; every later
  source is a row that is not deleted, below an earlier source that is a folder, and its
  clone is below the clone of that folder: no soft-deleted child or descendant has a
  counterpart.  The reference count of each blob rises by the number of logged file rows of
  its hash, and of no other row.  When moreover no row has identifier 0, the parent
  pointers of the owner have no cycle and the target is not the row or below it, then from
  some call depth on \<^verbatim>\<open>copy\<close> returns the clone of the row, and the sources are exactly the
  row and the rows reached from it through children that are not deleted.
\<close>

theorem copy_clones_active_only:
  assumes "keyed s" and "find_meta s i u = Some obj"
  shows "(\<forall>depth. \<exists>s' lg r.
            copy_walk depth (s, []) i tgt u = ((s', lg), r)
          \<and> copy depth s i tgt u = (s', r)
          \<and> metas s' = metas s @ map snd lg
          \<and> stores s' = bump lg (stores s)
          \<and> list_all (clone_of u) lg
          \<and> list_all (\<lambda>pr. \<not> is_deleted (fst pr) \<and> fst pr \<in> set (metas s') \<and> under lg pr)
               (tl lg)
          \<and> (lg = [] \<or> fst (hd lg) = obj \<and> parent_id (snd (hd lg)) = tgt))
       \<and> (0 \<notin> meta_id ` set (metas s) \<and> acyclic (parent_rel s u)
            \<and> (tgt, i) \<notin> (parent_rel s u)\<^sup>* \<longrightarrow>
          (\<exists>d. \<forall>depth \<ge> d. \<exists>s' lg new.
              copy_walk depth (s, []) i tgt u = ((s', lg), Inr (Some new))
            \<and> hd lg = (obj, new)
            \<and> fst ` set lg = insert obj (act_reach s u obj)))"
proof (intro conjI allI impI)
  fix depth
  obtain st' r where c: "copy_walk depth (s, []) i tgt u = (st', r)"
    by (cases "copy_walk depth (s, []) i tgt u")
  have "keyed (fst (s, [] :: copy_log))" using assms(1) by simp
  from copy_walk_walked[OF this c] obtain lg where w: "walked u (s, []) i tgt lg st'" by blast
  then have g: "grows u (s, []) lg st'"
    and a: "list_all (\<lambda>pr. \<not> is_deleted (fst pr)) (tl lg)"
    and un: "list_all (under lg) (tl lg)"
    and rows: "list_all (\<lambda>pr. fst pr \<in> set (metas (fst st'))) lg"
    and h: "lg = [] \<or> find_meta s i u = Some (fst (hd lg)) \<and> parent_id (snd (hd lg)) = tgt"
    by (simp_all add: walked_def)
  note e = grows_effect[OF g]
  have st': "st' = (fst st', lg)" using e(1) by (cases st') simp
  have c1: "copy_walk depth (s, []) i tgt u = ((fst st', lg), r)" using c st' by simp
  have c2: "copy depth s i tgt u = (fst st', r)" using c by (simp add: copy_def)
  have c3: "metas (fst st') = metas s @ map snd lg" using e(2) by simp
  have c4: "stores (fst st') = bump lg (stores s)" using e(4) by simp
  have "set (tl lg) \<subseteq> set lg" by (cases lg) auto
  then have c6: "list_all (\<lambda>pr. \<not> is_deleted (fst pr) \<and> fst pr \<in> set (metas (fst st'))
                     \<and> under lg pr) (tl lg)"
    using a un rows by (auto simp: list_all_iff)
  have c7: "lg = [] \<or> fst (hd lg) = obj \<and> parent_id (snd (hd lg)) = tgt"
    using h assms(2) by auto
  from c1 c2 c3 c4 e(8) c6 c7
  show "\<exists>s' lg r.
            copy_walk depth (s, []) i tgt u = ((s', lg), r)
          \<and> copy depth s i tgt u = (s', r)
          \<and> metas s' = metas s @ map snd lg
          \<and> stores s' = bump lg (stores s)
          \<and> list_all (clone_of u) lg
          \<and> list_all (\<lambda>pr. \<not> is_deleted (fst pr) \<and> fst pr \<in> set (metas s') \<and> under lg pr)
               (tl lg)
          \<and> (lg = [] \<or> fst (hd lg) = obj \<and> parent_id (snd (hd lg)) = tgt)"
    by (intro exI[of _ "fst st'"] exI[of _ lg] exI[of _ r] conjI)
next
  assume wfd: "0 \<notin> meta_id ` set (metas s) \<and> acyclic (parent_rel s u)
            \<and> (tgt, i) \<notin> (parent_rel s u)\<^sup>*"
  define D where "D = {j. (j, i) \<in> (parent_rel s u)\<^sup>*}"
  note o = find_meta_Some[OF assms(2)]
  have iD: "i \<in> meta_id ` set (metas s)" using o by auto
  have z: "0 \<notin> meta_id ` set (metas s)" and ac: "acyclic (parent_rel s u)" using wfd by auto
  have t: "tgt \<notin> D" using wfd by (simp add: D_def)
  have "i \<in> D" by (simp add: D_def)
  with copy_walk_returns[OF assms(1) z ac D_def iD, of i] o obtain d where
    d: "\<forall>depth \<ge> d. \<forall>st tgt. beside s D st \<and> tgt \<notin> D \<longrightarrow>
             (\<exists>st' new lg. copy_walk depth st i tgt u = (st', Inr (Some new))
                 \<and> walked u st i tgt lg st' \<and> lg \<noteq> [] \<and> hd lg = (obj, new)
                 \<and> fst ` set lg = insert obj (act_reach s u obj))"
    by blast
  have b: "beside s D (s, [])" using assms(1) by (simp add: beside_def)
  show "\<exists>d. \<forall>depth \<ge> d. \<exists>s' lg new.
              copy_walk depth (s, []) i tgt u = ((s', lg), Inr (Some new))
            \<and> hd lg = (obj, new)
            \<and> fst ` set lg = insert obj (act_reach s u obj)"
  proof (intro exI[of _ d] allI impI)
    fix depth assume "d \<le> depth"
    with d b t obtain st' new lg where
      r: "copy_walk depth (s, []) i tgt u = (st', Inr (Some new))"
      and w: "walked u (s, []) i tgt lg st'" and hl: "hd lg = (obj, new)"
      and ss: "fst ` set lg = insert obj (act_reach s u obj)"
      by blast
    from w have "snd st' = lg" by (simp add: walked_def grows_def)
    then have "st' = (fst st', lg)" by (cases st') simp
    with r have "copy_walk depth (s, []) i tgt u = ((fst st', lg), Inr (Some new))" by simp
    with hl ss show "\<exists>s' lg new.
              copy_walk depth (s, []) i tgt u = ((s', lg), Inr (Some new))
            \<and> hd lg = (obj, new)
            \<and> fst ` set lg = insert obj (act_reach s u obj)"
      by (intro exI[of _ "fst st'"] exI[of _ lg] exI[of _ new] conjI)
  qed
qed


lemma parent_rel_half_trashed:
  "parent_rel half_trashed 7 = {(1, 0), (2, 1), (3, 1), (4, 1), (5, 4)}"
  by (simp add: parent_rel_list half_trashed_def)

lemma root_reaches_nothing:
  "(0, y) \<in> {(1, 0), (2, 1), (3, 1), (4, 1), (5, 4::int)}\<^sup>* \<Longrightarrow> y = 0"
  by (induction rule: rtrancl_induct) auto

theorem copy_clones_active_only_witness:
  "(\<exists>depth s' lg new.
       copy_walk depth (half_trashed, []) 1 0 7 = ((s', lg), Inr (Some new))
     \<and> fst ` set lg = {metas half_trashed ! 0, metas half_trashed ! 1}
     \<and> metas s' = metas half_trashed @ map snd lg
     \<and> stores s' = bump lg (stores half_trashed))
   \<and> map (\<lambda>n. (meta_id n, parent_id n, file_name n, file_hash n, is_deleted n))
        (drop 5 (metas (fst (copy 5 half_trashed 1 0 7))))
       = [(6, 0, ''D (1)'', None, False), (7, 6, ''a.txt'', Some ''h1'', False)]
   \<and> map (\<lambda>r. (store_hash r, ref_count r)) (stores (fst (copy 5 half_trashed 1 0 7)))
       = [(''h1'', 3), (''h2'', 1)]"
proof -
  let ?s = half_trashed
  let ?obj = "hd (metas ?s)"
  let ?R = "parent_rel ?s 7"
  have k: "keyed ?s" by (simp add: keyed_def half_trashed_def)
  have f: "find_meta ?s 1 7 = Some ?obj" by (simp add: find_meta_def half_trashed_def)
  have z: "0 \<notin> meta_id ` set (metas ?s)" by (simp add: half_trashed_def)
  have ac: "acyclic ?R"
    unfolding parent_rel_half_trashed
    by (rule acyclicI_order[where f = "\<lambda>x. nat x"]) auto
  have nt: "(0, 1) \<notin> ?R\<^sup>*"
    unfolding parent_rel_half_trashed using root_reaches_nothing[of 1] by auto
  have fo: "is_folder ?obj" by (simp add: half_trashed_def)
  have nf: "\<not> is_folder (metas ?s ! 1)" by (simp add: half_trashed_def)
  have cs: "filter (\<lambda>c. parent_id c = meta_id ?obj \<and> user_id c = 7 \<and> \<not> is_deleted c) (metas ?s)
              = [metas ?s ! 1]"
    by (simp add: half_trashed_def)
  have ar: "act_reach ?s 7 ?obj = {metas ?s ! 1}"
    unfolding act_reach_unfold[OF fo] cs using act_reach_not_folder[OF nf] by simp
  have o0: "?obj = metas ?s ! 0" by (simp add: half_trashed_def)
  note th = copy_clones_active_only[OF k f, of 0]
  from th z ac nt obtain d where
    d: "\<forall>depth \<ge> d. \<exists>s' lg new.
              copy_walk depth (?s, []) 1 0 7 = ((s', lg), Inr (Some new))
            \<and> hd lg = (?obj, new)
            \<and> fst ` set lg = insert ?obj (act_reach ?s 7 ?obj)"
    by blast
  then obtain s' lg new where
    r: "copy_walk d (?s, []) 1 0 7 = ((s', lg), Inr (Some new))"
    and ss: "fst ` set lg = insert ?obj (act_reach ?s 7 ?obj)"
    by blast
  from th obtain s2 lg2 r2 where
    r': "copy_walk d (?s, []) 1 0 7 = ((s2, lg2), r2)"
    and m: "metas s2 = metas ?s @ map snd lg2"
    and b: "stores s2 = bump lg2 (stores ?s)"
    by blast
  from r r' have same: "s2 = s'" "lg2 = lg" by simp_all
  have first: "\<exists>depth s' lg new.
       copy_walk depth (?s, []) 1 0 7 = ((s', lg), Inr (Some new))
     \<and> fst ` set lg = {metas ?s ! 0, metas ?s ! 1}
     \<and> metas s' = metas ?s @ map snd lg
     \<and> stores s' = bump lg (stores ?s)"
    using r ss m b same ar o0
    by (intro exI[of _ d] exI[of _ s'] exI[of _ lg] exI[of _ new] conjI) simp_all
  have second: "map (\<lambda>n. (meta_id n, parent_id n, file_name n, file_hash n, is_deleted n))
        (drop 5 (metas (fst (copy 5 ?s 1 0 7))))
       = [(6, 0, ''D (1)'', None, False), (7, 6, ''a.txt'', Some ''h1'', False)]"
    by code_simp
  have third: "map (\<lambda>r. (store_hash r, ref_count r)) (stores (fst (copy 5 ?s 1 0 7)))
       = [(''h1'', 3), (''h2'', 1)]"
    by code_simp
  from first second third show ?thesis by (intro conjI)
qed

end
